theory Spec2Isabelle
  imports Main "HOL-Library.Word" "HOL-Library.Sublist"
begin

unbundle bit_operations_syntax

section \<open>Data model of \<^verbatim>\<open>src/common/bytecode_util.cc\<close>\<close>

text \<open>
  A \<^verbatim>\<open>std::string_view\<close> over the bytecode is a list of bytes; a \<^verbatim>\<open>const char *\<close> into
  it is an offset from \<^verbatim>\<open>bytecode.data()\<close>, kept as a natural number, so the address
  comparisons of the source (\<^verbatim>\<open>pos + n > end\<close>) are comparisons of offsets that never
  wrap. The source's \<^verbatim>\<open>end\<close> is written \<open>endp\<close>. Every read the model makes is at an
  offset below \<open>endp\<close>, and \<open>endp\<close> is never past the end of the buffer. The signedness
  of \<^verbatim>\<open>char\<close> plays no part: every byte is only masked (\<^verbatim>\<open>b & 0x7f\<close>,
  \<^verbatim>\<open>b & 0x80\<close>) or compared with 0, 1 or 7.

  Every function of the source returns \<^verbatim>\<open>bool\<close> and writes its result through a reference
  parameter. The model returns \<open>Inr out\<close> for \<^verbatim>\<open>return true\<close> and \<open>Inl (e, out)\<close> for
  \<^verbatim>\<open>return false\<close>, where \<open>out\<close> is the value the reference parameter holds at the
  return and \<open>e\<close> records which \<^verbatim>\<open>return false\<close> was taken.
\<close>

type_synonym byte = "8 word"
type_synonym u32 = "32 word"
type_synonym bytes = "byte list"

text \<open>
  The sites of \<^verbatim>\<open>return false\<close>: the header check (\<open>InvalidHeader\<close>), a read or a
  declared length past \<^verbatim>\<open>end\<close> (\<open>TruncatedInput\<close>), the final comparison of
  \<^verbatim>\<open>parseVarint\<close> with \<^verbatim>\<open>static_cast<uint32_t>(-1)\<close> (\<open>VarintOverflow\<close>), and the
  end-of-subsection comparison of \<^verbatim>\<open>getFunctionNameIndex\<close> (\<open>MalformedSection\<close>).
\<close>

datatype error = InvalidHeader | TruncatedInput | VarintOverflow | MalformedSection

text \<open>
  Modelled from the spec: the enumeration \<^verbatim>\<open>proxy_wasm::AbiVersion\<close> is declared in a
  header that is not among the sources; its four values are the ones the source names.
\<close>

datatype AbiVersion = ProxyWasm_0_1_0 | ProxyWasm_0_2_0 | ProxyWasm_0_2_1 | Unknown

text \<open>A string literal of the source as bytes.\<close>

definition str :: "string \<Rightarrow> bytes" where
  "str s = map of_char s"

text \<open>
  A view returned into the bytecode is kept as the offsets of its first byte and of its
  end. Its \<^verbatim>\<open>size()\<close> is their difference as a \<^verbatim>\<open>size_t\<close>, so it is \<^verbatim>\<open>empty()\<close> exactly
  when the two offsets are equal, and \<^verbatim>\<open>data() + size()\<close> is the end offset again. The
  default view \<^verbatim>\<open>{}\<close> is \<open>(0, 0)\<close>; it is never dereferenced. \<open>view_bytes\<close> gives the
  bytes of a view whose end is not before its first byte.
\<close>

type_synonym string_view = "nat \<times> nat"

definition view_bytes :: "bytes \<Rightarrow> string_view \<Rightarrow> bytes" where
  "view_bytes buf v = take (snd v - fst v) (drop (fst v) buf)"

type_synonym name_index = "u32 \<rightharpoonup> bytes"

text \<open>\<^verbatim>\<open>std::unordered_map::insert\<close> leaves the map as it is when the key is present.\<close>

definition map_insert :: "name_index \<Rightarrow> u32 \<Rightarrow> bytes \<Rightarrow> name_index" where
  "map_insert m k v = (case m k of None \<Rightarrow> m(k \<mapsto> v) | Some _ \<Rightarrow> m)"

text \<open>\<^verbatim>\<open>s.find(pat) != npos\<close>: the pattern occurs in \<open>s\<close> as a contiguous run.\<close>

fun find_sub :: "bytes \<Rightarrow> bytes \<Rightarrow> bool" where
  "find_sub pat [] = (pat = [])"
| "find_sub pat (c # s) = (prefix pat (c # s) \<or> find_sub pat s)"

section \<open>The header check\<close>

definition wasm_magic_number :: bytes where
  "wasm_magic_number = [0x00, 0x61, 0x73, 0x6d]"

definition checkWasmHeader :: "bytes \<Rightarrow> bool" where
  "checkWasmHeader bytecode \<longleftrightarrow>
     length bytecode < 8 \<or> take 4 bytecode = wasm_magic_number"

section \<open>The varint decoder\<close>

text \<open>
  The \<^verbatim>\<open>do ... while\<close> loop of \<^verbatim>\<open>parseVarint\<close>. \<^verbatim>\<open>ret\<close> is a reference the caller
  initialises, and the loop adds to it. \<^verbatim>\<open>shift\<close> is a \<^verbatim>\<open>uint32_t\<close>. The sum is formed in
  32 bits: \<^verbatim>\<open>(b & 0x7f) << shift\<close> keeps the low 32 bits of the shifted value. For a shift
  count of 32 or more, which C++ leaves undefined, the model keeps that reading, so all
  bits are shifted out. On failure the callers return at once, so the values left in
  \<^verbatim>\<open>pos\<close> and \<^verbatim>\<open>ret\<close> are not kept.
\<close>

function parseVarint_loop :: "bytes \<Rightarrow> nat \<Rightarrow> u32 \<Rightarrow> nat \<Rightarrow> u32 \<Rightarrow> error + (nat \<times> u32)" where
  "parseVarint_loop buf endp shift pos ret =
     (if pos + 1 > endp then Inl TruncatedInput
      else
        let b = buf ! pos;
            ret' = ret + push_bit (unat shift) (ucast (b AND 0x7f))
        in if b AND 0x80 \<noteq> 0 then parseVarint_loop buf endp (shift + 7) (pos + 1) ret'
           else if ret' \<noteq> - 1 then Inr (pos + 1, ret')
           else Inl VarintOverflow)"
  by pat_completeness auto
termination
  by (relation "measure (\<lambda>(buf, endp, shift, pos, ret). endp - pos)") auto

declare parseVarint_loop.simps [simp del]

definition parseVarint :: "bytes \<Rightarrow> nat \<Rightarrow> nat \<Rightarrow> u32 \<Rightarrow> error + (nat \<times> u32)" where
  "parseVarint buf endp pos ret = parseVarint_loop buf endp 0 pos ret"

lemma parseVarint_loop_pos:
  "parseVarint_loop buf endp shift pos ret = Inr (pos', v) \<Longrightarrow> pos < pos' \<and> pos' \<le> endp"
proof (induction buf endp shift pos ret rule: parseVarint_loop.induct)
  case (1 buf endp shift pos ret)
  show ?case
    using "1.prems" "1.IH"[OF _ refl refl]
    by (subst (asm) parseVarint_loop.simps) (auto simp: Let_def split: if_splits)
qed

lemma parseVarint_pos:
  "parseVarint buf endp pos ret = Inr (pos', v) \<Longrightarrow> pos < pos' \<and> pos' \<le> endp"
  unfolding parseVarint_def by (rule parseVarint_loop_pos)

section \<open>ABI version detection\<close>

definition abi_0_1_0 :: bytes where "abi_0_1_0 = str ''proxy_abi_version_0_1_0''"
definition abi_0_2_0 :: bytes where "abi_0_2_0 = str ''proxy_abi_version_0_2_0''"
definition abi_0_2_1 :: bytes where "abi_0_2_1 = str ''proxy_abi_version_0_2_1''"

text \<open>
  The \<^verbatim>\<open>for\<close> loop over the exports, \<open>n\<close> iterations left. The value is the version
  the function returns with \<^verbatim>\<open>true\<close>. The trailing index is decoded into
  \<^verbatim>\<open>export_name_size\<close>, which still holds the length of the name.
\<close>

primrec export_loop :: "bytes \<Rightarrow> nat \<Rightarrow> nat \<Rightarrow> nat \<Rightarrow> error + AbiVersion" where
  "export_loop buf endp 0 pos = Inr Unknown"
| "export_loop buf endp (Suc n) pos =
     (case parseVarint buf endp pos 0 of
        Inl e \<Rightarrow> Inl e
      | Inr (pos1, export_name_size) \<Rightarrow>
          if pos1 + unat export_name_size > endp then Inl TruncatedInput
          else
            let name_begin = pos1;
                pos2 = pos1 + unat export_name_size
            in if pos2 + 1 > endp then Inl TruncatedInput
               else
                 let kind = buf ! pos2;
                     pos3 = pos2 + 1;
                     export_name = take (unat export_name_size) (drop name_begin buf)
                 in if kind = 0x00 \<and> export_name = abi_0_1_0 then Inr ProxyWasm_0_1_0
                    else if kind = 0x00 \<and> export_name = abi_0_2_0 then Inr ProxyWasm_0_2_0
                    else if kind = 0x00 \<and> export_name = abi_0_2_1 then Inr ProxyWasm_0_2_1
                    else
                      (case parseVarint buf endp pos3 export_name_size of
                         Inl e \<Rightarrow> Inl e
                       | Inr (pos4, index) \<Rightarrow> export_loop buf endp n pos4))"

text \<open>The \<^verbatim>\<open>while (pos < end)\<close> loop over the sections.\<close>

function abi_sections :: "bytes \<Rightarrow> nat \<Rightarrow> nat \<Rightarrow> error + AbiVersion" where
  "abi_sections buf endp pos =
     (if pos < endp then
        if pos + 1 > endp then Inl TruncatedInput
        else
          let section_type = buf ! pos in
          case parseVarint buf endp (pos + 1) 0 of
            Inl e \<Rightarrow> Inl e
          | Inr (pos1, section_len) \<Rightarrow>
              if pos1 + unat section_len > endp then Inl TruncatedInput
              else if section_type = 7 then
                (case parseVarint buf endp pos1 0 of
                   Inl e \<Rightarrow> Inl e
                 | Inr (pos2, export_vector_size) \<Rightarrow>
                     if pos2 + unat export_vector_size > endp then Inl TruncatedInput
                     else export_loop buf endp (unat export_vector_size) pos2)
              else abi_sections buf endp (pos1 + unat section_len)
      else Inr Unknown)"
  by pat_completeness auto
termination
  by (relation "measure (\<lambda>(buf, endp, pos). endp - pos)")
     (auto dest!: parseVarint_pos)

declare abi_sections.simps [simp del]

text \<open>
  \<^verbatim>\<open>ret\<close> is set to \<^verbatim>\<open>Unknown\<close> on entry and to a version only right before
  \<^verbatim>\<open>return true\<close>, so it is \<^verbatim>\<open>Unknown\<close> at every \<^verbatim>\<open>return false\<close>.
\<close>

definition getAbiVersion :: "bytes \<Rightarrow> (error \<times> AbiVersion) + AbiVersion" where
  "getAbiVersion bytecode =
     (if \<not> checkWasmHeader bytecode then Inl (InvalidHeader, Unknown)
      else case abi_sections bytecode (length bytecode) 8 of
             Inl e \<Rightarrow> Inl (e, Unknown)
           | Inr v \<Rightarrow> Inr v)"

section \<open>Custom section lookup\<close>

function custom_sections :: "bytes \<Rightarrow> nat \<Rightarrow> bytes \<Rightarrow> nat \<Rightarrow> string_view \<Rightarrow> error + string_view" where
  "custom_sections buf endp name pos ret =
     (if pos < endp then
        if pos + 1 > endp then Inl TruncatedInput
        else
          let section_type = buf ! pos in
          case parseVarint buf endp (pos + 1) 0 of
            Inl e \<Rightarrow> Inl e
          | Inr (pos1, section_len) \<Rightarrow>
              if pos1 + unat section_len > endp then Inl TruncatedInput
              else if section_type = 0 then
                let section_data_start = pos1 in
                (case parseVarint buf endp pos1 0 of
                   Inl e \<Rightarrow> Inl e
                 | Inr (pos2, section_name_len) \<Rightarrow>
                     if pos2 + unat section_name_len > endp then Inl TruncatedInput
                     else if unat section_name_len = length name \<and>
                             take (unat section_name_len) (drop pos2 buf) = name
                     then Inr (pos2 + unat section_name_len, section_data_start + unat section_len)
                     else custom_sections buf endp name (section_data_start + unat section_len) ret)
              else custom_sections buf endp name (pos1 + unat section_len) ret
      else Inr ret)"
  by pat_completeness auto
termination
  by (relation "measure (\<lambda>(buf, endp, name, pos, ret). endp - pos)")
     (auto dest!: parseVarint_pos)

declare custom_sections.simps [simp del]

definition getCustomSection :: "bytes \<Rightarrow> bytes \<Rightarrow> string_view \<Rightarrow> (error \<times> string_view) + string_view" where
  "getCustomSection bytecode name ret =
     (if \<not> checkWasmHeader bytecode then Inl (InvalidHeader, ret)
      else case custom_sections bytecode (length bytecode) name 8 ret of
             Inl e \<Rightarrow> Inl (e, ret)
           | Inr v \<Rightarrow> Inr v)"

section \<open>Function name index\<close>

text \<open>The \<^verbatim>\<open>for\<close> loop over the pairs of the function name subsection.\<close>

primrec namemap_loop :: "bytes \<Rightarrow> nat \<Rightarrow> nat \<Rightarrow> nat \<Rightarrow> name_index \<Rightarrow> (error \<times> name_index) + (nat \<times> name_index)" where
  "namemap_loop buf endp 0 pos ret = Inr (pos, ret)"
| "namemap_loop buf endp (Suc n) pos ret =
     (case parseVarint buf endp pos 0 of
        Inl e \<Rightarrow> Inl (e, ret)
      | Inr (pos1, func_index) \<Rightarrow>
          (case parseVarint buf endp pos1 0 of
             Inl e \<Rightarrow> Inl (e, ret)
           | Inr (pos2, func_name_size) \<Rightarrow>
               if pos2 + unat func_name_size > endp then Inl (TruncatedInput, ret)
               else namemap_loop buf endp n (pos2 + unat func_name_size)
                      (map_insert ret func_index (take (unat func_name_size) (drop pos2 buf)))))"

lemma namemap_loop_pos:
  "namemap_loop buf endp n pos ret = Inr (pos', ret') \<Longrightarrow> pos \<le> pos'"
proof (induction n arbitrary: pos ret)
  case 0
  then show ?case by simp
next
  case (Suc n)
  then show ?case
    by (fastforce split: sum.splits prod.splits if_splits dest!: parseVarint_pos)
qed

text \<open>The \<^verbatim>\<open>while (pos < end)\<close> loop over the subsections of the name section.\<close>

function name_subsections :: "bytes \<Rightarrow> nat \<Rightarrow> nat \<Rightarrow> name_index \<Rightarrow> (error \<times> name_index) + name_index" where
  "name_subsections buf endp pos ret =
     (if pos < endp then
        let subsection_id = buf ! pos in
        case parseVarint buf endp (pos + 1) 0 of
          Inl e \<Rightarrow> Inl (e, ret)
        | Inr (pos1, subsection_size) \<Rightarrow>
            if pos1 + unat subsection_size > endp then Inl (TruncatedInput, ret)
            else if subsection_id \<noteq> 1 then
              name_subsections buf endp (pos1 + unat subsection_size) ret
            else
              let start = pos1 in
              (case parseVarint buf endp pos1 0 of
                 Inl e \<Rightarrow> Inl (e, ret)
               | Inr (pos2, namemap_vector_size) \<Rightarrow>
                   if pos2 + unat namemap_vector_size > endp then Inl (TruncatedInput, ret)
                   else
                     (case namemap_loop buf endp (unat namemap_vector_size) pos2 ret of
                        Inl x \<Rightarrow> Inl x
                      | Inr (pos3, ret') \<Rightarrow>
                          if start + unat subsection_size \<noteq> pos3 then Inl (MalformedSection, ret')
                          else name_subsections buf endp pos3 ret'))
      else Inr ret)"
  by pat_completeness auto
termination
  by (relation "measure (\<lambda>(buf, endp, pos, ret). endp - pos)")
     (auto dest!: parseVarint_pos namemap_loop_pos)

declare name_subsections.simps [simp del]

definition getFunctionNameIndex :: "bytes \<Rightarrow> name_index \<Rightarrow> (error \<times> name_index) + name_index" where
  "getFunctionNameIndex bytecode ret =
     (case getCustomSection bytecode (str ''name'') (0, 0) of
        Inl (e, v) \<Rightarrow> Inl (e, ret)
      | Inr name_section \<Rightarrow>
          if fst name_section \<noteq> snd name_section
          then name_subsections bytecode (snd name_section) (fst name_section) ret
          else Inr ret)"

section \<open>Stripped source\<close>

definition precompiled :: bytes where "precompiled = str ''precompiled_''"

function strip_sections :: "bytes \<Rightarrow> nat \<Rightarrow> nat \<Rightarrow> bytes \<Rightarrow> (error \<times> bytes) + bytes" where
  "strip_sections buf endp pos ret =
     (if pos < endp then
        let section_start = pos in
        if pos + 1 > endp then Inl (TruncatedInput, ret)
        else
          let section_type = buf ! pos in
          case parseVarint buf endp (pos + 1) 0 of
            Inl e \<Rightarrow> Inl (e, ret)
          | Inr (pos1, section_len) \<Rightarrow>
              if pos1 + unat section_len > endp then Inl (TruncatedInput, ret)
              else if section_type = 0 then
                let section_data_start = pos1 in
                (case parseVarint buf endp pos1 0 of
                   Inl e \<Rightarrow> Inl (e, ret)
                 | Inr (pos2, section_name_len) \<Rightarrow>
                     if pos2 + unat section_name_len > endp then Inl (TruncatedInput, ret)
                     else
                       let section_name = take (unat section_name_len) (drop pos2 buf);
                           ret' = (if find_sub precompiled section_name \<and> ret = []
                                   then ret @ take section_start buf else ret)
                       in strip_sections buf endp (section_data_start + unat section_len) ret')
              else
                let pos' = pos1 + unat section_len;
                    ret' = (if ret \<noteq> []
                            then ret @ take (pos' - section_start) (drop section_start buf)
                            else ret)
                in strip_sections buf endp pos' ret'
      else Inr ret)"
  by pat_completeness auto
termination
  by (relation "measure (\<lambda>(buf, endp, pos, ret). endp - pos)")
     (auto dest!: parseVarint_pos)

declare strip_sections.simps [simp del]

definition getStrippedSource :: "bytes \<Rightarrow> bytes \<Rightarrow> (error \<times> bytes) + bytes" where
  "getStrippedSource bytecode ret =
     (if \<not> checkWasmHeader bytecode then Inl (InvalidHeader, ret)
      else case strip_sections bytecode (length bytecode) 8 ret of
             Inl x \<Rightarrow> Inl x
           | Inr ret' \<Rightarrow> Inr (if ret' = [] then bytecode else ret'))"

section \<open>The events of a run\<close>

text \<open>
  What getFunctionNameIndex and getStrippedSource do to their output, step by step. The
  loops are followed once more, and what they do is recorded in its order, up to the
  point where the run returns: every call of \<^verbatim>\<open>parseVarint\<close>, with the cursor and the
  bound it is given; every \<^verbatim>\<open>ret.insert\<close>, with its pair; every custom section whose name
  contains \<^verbatim>\<open>precompiled_\<close>, with the offset of its first byte; every non-custom
  section, with the offsets of its first byte and of its end. The last two are the
  places of the two \<^verbatim>\<open>ret.append\<close> calls, each under its test of \<^verbatim>\<open>ret.empty()\<close>.
\<close>

datatype event =
    Varint nat nat
  | Insert u32 bytes
  | Precompiled nat
  | Noncustom nat nat

text \<open>
  The \<^verbatim>\<open>for\<close> loop over the pairs: its events, and the cursor it leaves (\<open>None\<close> when it
  returns \<^verbatim>\<open>false\<close>).
\<close>

primrec namemap_loop_log :: "bytes \<Rightarrow> nat \<Rightarrow> nat \<Rightarrow> nat \<Rightarrow> event list \<times> nat option" where
  "namemap_loop_log buf endp 0 pos = ([], Some pos)"
| "namemap_loop_log buf endp (Suc n) pos =
     (case parseVarint buf endp pos 0 of
        Inl e \<Rightarrow> ([Varint pos endp], None)
      | Inr (pos1, func_index) \<Rightarrow>
          (case parseVarint buf endp pos1 0 of
             Inl e \<Rightarrow> ([Varint pos endp, Varint pos1 endp], None)
           | Inr (pos2, func_name_size) \<Rightarrow>
               if pos2 + unat func_name_size > endp then ([Varint pos endp, Varint pos1 endp], None)
               else
                 let (log, pos') = namemap_loop_log buf endp n (pos2 + unat func_name_size)
                 in (Varint pos endp # Varint pos1 endp #
                     Insert func_index (take (unat func_name_size) (drop pos2 buf)) # log, pos')))"

lemma namemap_loop_log_pos:
  "namemap_loop_log buf endp n pos = (log, Some pos') \<Longrightarrow> pos \<le> pos'"
proof (induction n arbitrary: pos log)
  case 0
  then show ?case by simp
next
  case (Suc n)
  then show ?case
    by (fastforce split: sum.splits prod.splits if_splits dest!: parseVarint_pos)
qed

text \<open>The \<^verbatim>\<open>while\<close> loop over the subsections of the name section.\<close>

function name_subsections_log :: "bytes \<Rightarrow> nat \<Rightarrow> nat \<Rightarrow> event list" where
  "name_subsections_log buf endp pos =
     (if pos < endp then
        let subsection_id = buf ! pos in
        Varint (pos + 1) endp #
        (case parseVarint buf endp (pos + 1) 0 of
           Inl e \<Rightarrow> []
         | Inr (pos1, subsection_size) \<Rightarrow>
             if pos1 + unat subsection_size > endp then []
             else if subsection_id \<noteq> 1 then
               name_subsections_log buf endp (pos1 + unat subsection_size)
             else
               let start = pos1 in
               Varint pos1 endp #
               (case parseVarint buf endp pos1 0 of
                  Inl e \<Rightarrow> []
                | Inr (pos2, namemap_vector_size) \<Rightarrow>
                    if pos2 + unat namemap_vector_size > endp then []
                    else
                      (case namemap_loop_log buf endp (unat namemap_vector_size) pos2 of
                         (log, None) \<Rightarrow> log
                       | (log, Some pos3) \<Rightarrow>
                           if start + unat subsection_size \<noteq> pos3 then log
                           else log @ name_subsections_log buf endp pos3)))
      else [])"
  by pat_completeness auto
termination
  by (relation "measure (\<lambda>(buf, endp, pos). endp - pos)")
     (auto dest!: parseVarint_pos namemap_loop_log_pos)

declare name_subsections_log.simps [simp del]

text \<open>
  The loop of getCustomSection writes its view only where it returns \<^verbatim>\<open>true\<close>; its events
  are its calls of \<^verbatim>\<open>parseVarint\<close>. getFunctionNameIndex runs it for the name \<open>name\<close> and
  then, on a view that is not empty, the loop over the subsections.
\<close>

function custom_sections_log :: "bytes \<Rightarrow> nat \<Rightarrow> bytes \<Rightarrow> nat \<Rightarrow> event list" where
  "custom_sections_log buf endp name pos =
     (if pos < endp then
        if pos + 1 > endp then []
        else
          let section_type = buf ! pos in
          Varint (pos + 1) endp #
          (case parseVarint buf endp (pos + 1) 0 of
             Inl e \<Rightarrow> []
           | Inr (pos1, section_len) \<Rightarrow>
               if pos1 + unat section_len > endp then []
               else if section_type = 0 then
                 let section_data_start = pos1 in
                 Varint pos1 endp #
                 (case parseVarint buf endp pos1 0 of
                    Inl e \<Rightarrow> []
                  | Inr (pos2, section_name_len) \<Rightarrow>
                      if pos2 + unat section_name_len > endp then []
                      else if unat section_name_len = length name \<and>
                              take (unat section_name_len) (drop pos2 buf) = name
                      then []
                      else custom_sections_log buf endp name (section_data_start + unat section_len))
               else custom_sections_log buf endp name (pos1 + unat section_len))
      else [])"
  by pat_completeness auto
termination
  by (relation "measure (\<lambda>(buf, endp, name, pos). endp - pos)")
     (auto dest!: parseVarint_pos)

declare custom_sections_log.simps [simp del]

definition getCustomSection_log :: "bytes \<Rightarrow> bytes \<Rightarrow> event list" where
  "getCustomSection_log bytecode name =
     (if \<not> checkWasmHeader bytecode then []
      else custom_sections_log bytecode (length bytecode) name 8)"

definition getFunctionNameIndex_log :: "bytes \<Rightarrow> event list" where
  "getFunctionNameIndex_log bytecode =
     getCustomSection_log bytecode (str ''name'') @
     (case getCustomSection bytecode (str ''name'') (0, 0) of
        Inl x \<Rightarrow> []
      | Inr name_section \<Rightarrow>
          if fst name_section \<noteq> snd name_section
          then name_subsections_log bytecode (snd name_section) (fst name_section)
          else [])"

text \<open>The \<^verbatim>\<open>while\<close> loop of getStrippedSource.\<close>

function strip_sections_log :: "bytes \<Rightarrow> nat \<Rightarrow> nat \<Rightarrow> event list" where
  "strip_sections_log buf endp pos =
     (if pos < endp then
        let section_start = pos in
        if pos + 1 > endp then []
        else
          let section_type = buf ! pos in
          Varint (pos + 1) endp #
          (case parseVarint buf endp (pos + 1) 0 of
             Inl e \<Rightarrow> []
           | Inr (pos1, section_len) \<Rightarrow>
               if pos1 + unat section_len > endp then []
               else if section_type = 0 then
                 let section_data_start = pos1 in
                 Varint pos1 endp #
                 (case parseVarint buf endp pos1 0 of
                    Inl e \<Rightarrow> []
                  | Inr (pos2, section_name_len) \<Rightarrow>
                      if pos2 + unat section_name_len > endp then []
                      else
                        let section_name = take (unat section_name_len) (drop pos2 buf)
                        in (if find_sub precompiled section_name then [Precompiled section_start] else []) @
                           strip_sections_log buf endp (section_data_start + unat section_len))
               else
                 let pos' = pos1 + unat section_len
                 in Noncustom section_start pos' # strip_sections_log buf endp pos')
      else [])"
  by pat_completeness auto
termination
  by (relation "measure (\<lambda>(buf, endp, pos). endp - pos)")
     (auto dest!: parseVarint_pos)

declare strip_sections_log.simps [simp del]

definition getStrippedSource_log :: "bytes \<Rightarrow> event list" where
  "getStrippedSource_log bytecode =
     (if \<not> checkWasmHeader bytecode then [] else strip_sections_log bytecode (length bytecode) 8)"

text \<open>
  The pairs inserted, in their order, and what an event does to the output buffer: the two
  \<^verbatim>\<open>ret.append\<close> calls of getStrippedSource under their tests of \<^verbatim>\<open>ret.empty()\<close>.
\<close>

fun inserts :: "event list \<Rightarrow> (u32 \<times> bytes) list" where
  "inserts [] = []"
| "inserts (Insert func_index name # log) = (func_index, name) # inserts log"
| "inserts (_ # log) = inserts log"

fun append_event :: "bytes \<Rightarrow> bytes \<Rightarrow> event \<Rightarrow> bytes" where
  "append_event buf ret (Precompiled section_start) =
     (if ret = [] then ret @ take section_start buf else ret)"
| "append_event buf ret (Noncustom section_start pos) =
     (if ret \<noteq> [] then ret @ take (pos - section_start) (drop section_start buf) else ret)"
| "append_event buf ret _ = ret"

text \<open>
  \<open>reads_within buf endp k pos\<close>: the loop of \<^verbatim>\<open>parseVarint\<close>, started at \<open>pos\<close>, returns
  after it has read at most \<open>k\<close> bytes. A call that reads at most five bytes shifts by 0,
  7, 14, 21 and 28 only; the sixth byte would be shifted by 35, which C++ leaves
  undefined for a 32-bit operand.
\<close>

primrec reads_within :: "bytes \<Rightarrow> nat \<Rightarrow> nat \<Rightarrow> nat \<Rightarrow> bool" where
  "reads_within buf endp 0 pos \<longleftrightarrow> pos + 1 > endp"
| "reads_within buf endp (Suc k) pos \<longleftrightarrow>
     pos + 1 > endp \<or> buf ! pos AND 0x80 = 0 \<or> reads_within buf endp k (pos + 1)"

fun event_defined :: "bytes \<Rightarrow> event \<Rightarrow> bool" where
  "event_defined buf (Varint pos endp) = reads_within buf endp 5 pos"
| "event_defined buf _ = True"

text \<open>
  The loop of \<^verbatim>\<open>parseVarint\<close> again, with the value of a shift by 32 or more left open:
  \<open>w x s\<close> stands for \<^verbatim>\<open>x << s\<close> when \<open>s\<close> is 32 or more.
\<close>

function parseVarint_loop_w ::
  "(u32 \<Rightarrow> nat \<Rightarrow> u32) \<Rightarrow> bytes \<Rightarrow> nat \<Rightarrow> u32 \<Rightarrow> nat \<Rightarrow> u32 \<Rightarrow> error + (nat \<times> u32)" where
  "parseVarint_loop_w w buf endp shift pos ret =
     (if pos + 1 > endp then Inl TruncatedInput
      else
        let b = buf ! pos;
            x = ucast (b AND 0x7f);
            ret' = ret + (if unat shift < 32 then push_bit (unat shift) x else w x (unat shift))
        in if b AND 0x80 \<noteq> 0 then parseVarint_loop_w w buf endp (shift + 7) (pos + 1) ret'
           else if ret' \<noteq> - 1 then Inr (pos + 1, ret')
           else Inl VarintOverflow)"
  by pat_completeness auto
termination
  by (relation "measure (\<lambda>(w, buf, endp, shift, pos, ret). endp - pos)") auto

declare parseVarint_loop_w.simps [simp del]


section \<open>The binary format\<close>

text \<open>
  The encodings the decoder is checked against, after the data model of the
  specification: the standard unsigned LEB128 encoding of a number, a section
  \<open>(type: u8, length: u32-varint, payload)\<close>, a custom section (type 0, the payload a
  length-prefixed name followed by data), an export entry
  \<open>(name: length-prefixed bytes, kind: u8, index: u32-varint)\<close>, and a name subsection
  \<open>(id: u8, size: u32-varint, body)\<close> whose body, for id 1, is a vector of
  \<open>(function_index: u32-varint, name: length-prefixed bytes)\<close> pairs.
\<close>

function leb128 :: "nat \<Rightarrow> bytes" where
  "leb128 n = (if n < 128 then [of_nat n]
               else (of_nat (n mod 128) OR 0x80) # leb128 (n div 128))"
  by pat_completeness auto
termination
  by (relation "measure id") auto

declare leb128.simps [simp del]

definition enc_section :: "byte \<Rightarrow> bytes \<Rightarrow> bytes" where
  "enc_section ty payload = ty # leb128 (length payload) @ payload"

definition custom_payload :: "bytes \<Rightarrow> bytes \<Rightarrow> bytes" where
  "custom_payload name data = leb128 (length name) @ name @ data"

definition custom_section :: "bytes \<Rightarrow> bytes \<Rightarrow> bytes" where
  "custom_section name data = enc_section 0 (custom_payload name data)"

type_synonym export = "bytes \<times> byte \<times> u32"

fun enc_export :: "export \<Rightarrow> bytes" where
  "enc_export (name, kind, index) = leb128 (length name) @ name @ [kind] @ leb128 (unat index)"

definition export_payload :: "export list \<Rightarrow> bytes" where
  "export_payload es = leb128 (length es) @ concat (map enc_export es)"

definition export_section :: "export list \<Rightarrow> bytes" where
  "export_section es = enc_section 7 (export_payload es)"

fun enc_pair :: "u32 \<times> bytes \<Rightarrow> bytes" where
  "enc_pair (func_index, name) = leb128 (unat func_index) @ leb128 (length name) @ name"

definition namemap :: "(u32 \<times> bytes) list \<Rightarrow> bytes" where
  "namemap ps = leb128 (length ps) @ concat (map enc_pair ps)"

definition enc_subsection :: "byte \<Rightarrow> bytes \<Rightarrow> bytes" where
  "enc_subsection sid body = sid # leb128 (length body) @ body"

text \<open>
  A module is a header followed by sections. A section is well formed when the decoder
  accepts its length: a length below \<open>2 ^ 32 - 1\<close>, the value \<^verbatim>\<open>parseVarint\<close> refuses.
\<close>

datatype wasm_section = Custom bytes bytes | Plain byte bytes

fun enc :: "wasm_section \<Rightarrow> bytes" where
  "enc (Custom name data) = custom_section name data"
| "enc (Plain ty payload) = enc_section ty payload"

fun wf_section :: "wasm_section \<Rightarrow> bool" where
  "wf_section (Custom name data) \<longleftrightarrow> length (custom_payload name data) < 2 ^ 32 - 1"
| "wf_section (Plain ty payload) \<longleftrightarrow> ty \<noteq> 0 \<and> length payload < 2 ^ 32 - 1"

definition enc_sections :: "wasm_section list \<Rightarrow> bytes" where
  "enc_sections secs = concat (map enc secs)"

definition valid_header :: "bytes \<Rightarrow> bool" where
  "valid_header h \<longleftrightarrow> length h = 8 \<and> take 4 h = wasm_magic_number"

definition wasm_header :: bytes where
  "wasm_header = [0x00, 0x61, 0x73, 0x6d, 0x01, 0x00, 0x00, 0x00]"

text \<open>What the scans look at in a section: its type, its name, the marker in its name.\<close>

fun sec_type :: "wasm_section \<Rightarrow> byte" where
  "sec_type (Custom name data) = 0"
| "sec_type (Plain ty payload) = ty"

fun is_named :: "bytes \<Rightarrow> wasm_section \<Rightarrow> bool" where
  "is_named n (Custom name data) = (name = n)"
| "is_named n (Plain ty payload) = False"

fun is_precompiled :: "wasm_section \<Rightarrow> bool" where
  "is_precompiled (Custom name data) = find_sub precompiled name"
| "is_precompiled (Plain ty payload) = False"

text \<open>
  The subsections of a name section, as pairs of an id and a body, and the pairs of a
  function name subsection. A pair is well formed when the decoder accepts its two
  varints: an index other than \<open>0xffffffff\<close> and a name shorter than \<open>2 ^ 32 - 1\<close>.
\<close>

definition enc_subsections :: "(byte \<times> bytes) list \<Rightarrow> bytes" where
  "enc_subsections subs = concat (map (\<lambda>(sid, body). enc_subsection sid body) subs)"

fun wf_pair :: "u32 \<times> bytes \<Rightarrow> bool" where
  "wf_pair (func_index, name) \<longleftrightarrow> func_index \<noteq> - 1 \<and> length name < 2 ^ 32 - 1"

text \<open>The inserts of the pairs, in their order.\<close>

fun insert_all :: "name_index \<Rightarrow> (u32 \<times> bytes) list \<Rightarrow> name_index" where
  "insert_all m [] = m"
| "insert_all m ((func_index, name) # ps) = insert_all (map_insert m func_index name) ps"

text \<open>Two malformed modules: a name section whose function name subsection declares
  5 bytes and holds 4, and a module cut off after the type byte of its last section.\<close>

definition bad_names :: bytes where
  "bad_names = wasm_header @ custom_section (str ''name'')
                 ([1] @ leb128 5 @ namemap [(0, str ''a'')] @ [0x00])"

definition bad_strip :: bytes where
  "bad_strip = wasm_header @ custom_section (str ''precompiled_x'') [] @ [0x0a]"

text \<open>Two modules on which the run fails before anything is written: a name section whose
  function name subsection declares 9 bytes where 4 are left, and a module whose only
  section declares 5 bytes where 1 is left.\<close>

definition early_names :: bytes where
  "early_names = wasm_header @ custom_section (str ''name'')
                   ([1] @ leb128 9 @ namemap [(0, str ''a'')])"

definition early_strip :: bytes where
  "early_strip = wasm_header @ [0x07, 0x05, 0x01]"

text \<open>
  What the export loop computes on a list of exports: the version named by the first
  function export (kind 0) that carries one of the three known names. An export that is
  passed over is decoded without failure when the sum of its name length and its index,
  in 32 bits, is not \<open>0xffffffff\<close>.
\<close>

fun abi_of :: "export \<Rightarrow> AbiVersion option" where
  "abi_of (name, kind, index) =
     (if kind = 0x00 \<and> name = abi_0_1_0 then Some ProxyWasm_0_1_0
      else if kind = 0x00 \<and> name = abi_0_2_0 then Some ProxyWasm_0_2_0
      else if kind = 0x00 \<and> name = abi_0_2_1 then Some ProxyWasm_0_2_1
      else None)"

fun abi_scan :: "export list \<Rightarrow> AbiVersion" where
  "abi_scan [] = Unknown"
| "abi_scan (e # es) = (case abi_of e of Some v \<Rightarrow> v | None \<Rightarrow> abi_scan es)"

fun skip_ok :: "export \<Rightarrow> bool" where
  "skip_ok (name, kind, index) \<longleftrightarrow> of_nat (length name) + index \<noteq> (- 1 :: u32)"

section \<open>Unfolding the loops\<close>

text \<open>One iteration of each loop, as conditional equations.\<close>

lemma abi_sections_lt:
  "pos < endp \<Longrightarrow> abi_sections buf endp pos =
     (case parseVarint buf endp (pos + 1) 0 of
        Inl e \<Rightarrow> Inl e
      | Inr (pos1, section_len) \<Rightarrow>
          if pos1 + unat section_len > endp then Inl TruncatedInput
          else if buf ! pos = 7 then
            (case parseVarint buf endp pos1 0 of
               Inl e \<Rightarrow> Inl e
             | Inr (pos2, export_vector_size) \<Rightarrow>
                 if pos2 + unat export_vector_size > endp then Inl TruncatedInput
                 else export_loop buf endp (unat export_vector_size) pos2)
          else abi_sections buf endp (pos1 + unat section_len))"
  by (subst abi_sections.simps, unfold Let_def) simp

lemma abi_sections_ge:
  "\<not> pos < endp \<Longrightarrow> abi_sections buf endp pos = Inr Unknown"
  by (subst abi_sections.simps) simp

lemma custom_sections_lt:
  "pos < endp \<Longrightarrow> custom_sections buf endp name pos ret =
     (case parseVarint buf endp (pos + 1) 0 of
        Inl e \<Rightarrow> Inl e
      | Inr (pos1, section_len) \<Rightarrow>
          if pos1 + unat section_len > endp then Inl TruncatedInput
          else if buf ! pos = 0 then
            (case parseVarint buf endp pos1 0 of
               Inl e \<Rightarrow> Inl e
             | Inr (pos2, section_name_len) \<Rightarrow>
                 if pos2 + unat section_name_len > endp then Inl TruncatedInput
                 else if unat section_name_len = length name \<and>
                         take (unat section_name_len) (drop pos2 buf) = name
                 then Inr (pos2 + unat section_name_len, pos1 + unat section_len)
                 else custom_sections buf endp name (pos1 + unat section_len) ret)
          else custom_sections buf endp name (pos1 + unat section_len) ret)"
  by (subst custom_sections.simps, unfold Let_def) simp

lemma custom_sections_ge:
  "\<not> pos < endp \<Longrightarrow> custom_sections buf endp name pos ret = Inr ret"
  by (subst custom_sections.simps) simp

lemma name_subsections_lt:
  "pos < endp \<Longrightarrow> name_subsections buf endp pos ret =
     (case parseVarint buf endp (pos + 1) 0 of
        Inl e \<Rightarrow> Inl (e, ret)
      | Inr (pos1, subsection_size) \<Rightarrow>
          if pos1 + unat subsection_size > endp then Inl (TruncatedInput, ret)
          else if buf ! pos \<noteq> 1 then
            name_subsections buf endp (pos1 + unat subsection_size) ret
          else
            (case parseVarint buf endp pos1 0 of
               Inl e \<Rightarrow> Inl (e, ret)
             | Inr (pos2, namemap_vector_size) \<Rightarrow>
                 if pos2 + unat namemap_vector_size > endp then Inl (TruncatedInput, ret)
                 else
                   (case namemap_loop buf endp (unat namemap_vector_size) pos2 ret of
                      Inl x \<Rightarrow> Inl x
                    | Inr (pos3, ret') \<Rightarrow>
                        if pos1 + unat subsection_size \<noteq> pos3 then Inl (MalformedSection, ret')
                        else name_subsections buf endp pos3 ret')))"
  by (subst name_subsections.simps, unfold Let_def) simp

lemma name_subsections_ge:
  "\<not> pos < endp \<Longrightarrow> name_subsections buf endp pos ret = Inr ret"
  by (subst name_subsections.simps) simp

lemma strip_sections_lt:
  "pos < endp \<Longrightarrow> strip_sections buf endp pos ret =
     (case parseVarint buf endp (pos + 1) 0 of
        Inl e \<Rightarrow> Inl (e, ret)
      | Inr (pos1, section_len) \<Rightarrow>
          if pos1 + unat section_len > endp then Inl (TruncatedInput, ret)
          else if buf ! pos = 0 then
            (case parseVarint buf endp pos1 0 of
               Inl e \<Rightarrow> Inl (e, ret)
             | Inr (pos2, section_name_len) \<Rightarrow>
                 if pos2 + unat section_name_len > endp then Inl (TruncatedInput, ret)
                 else strip_sections buf endp (pos1 + unat section_len)
                        (if find_sub precompiled (take (unat section_name_len) (drop pos2 buf)) \<and> ret = []
                         then ret @ take pos buf else ret))
          else strip_sections buf endp (pos1 + unat section_len)
                 (if ret \<noteq> []
                  then ret @ take (pos1 + unat section_len - pos) (drop pos buf)
                  else ret))"
  by (subst strip_sections.simps, unfold Let_def) simp

lemma strip_sections_ge:
  "\<not> pos < endp \<Longrightarrow> strip_sections buf endp pos ret = Inr ret"
  by (subst strip_sections.simps) simp

lemma export_loop_numeral:
  "export_loop buf endp (numeral k) pos = export_loop buf endp (Suc (pred_numeral k)) pos"
  by (simp only: numeral_eq_Suc)

lemma namemap_loop_numeral:
  "namemap_loop buf endp (numeral k) pos ret = namemap_loop buf endp (Suc (pred_numeral k)) pos ret"
  by (simp only: numeral_eq_Suc)

text \<open>The facts that evaluate the model on a concrete buffer.\<close>

lemmas run_simps =
  getAbiVersion_def getCustomSection_def getFunctionNameIndex_def getStrippedSource_def
  checkWasmHeader_def wasm_magic_number_def parseVarint_def parseVarint_loop.simps
  abi_sections_lt abi_sections_ge custom_sections_lt custom_sections_ge
  name_subsections_lt name_subsections_ge strip_sections_lt strip_sections_ge
  export_loop_numeral namemap_loop_numeral map_insert_def
  abi_0_1_0_def abi_0_2_0_def abi_0_2_1_def precompiled_def str_def Let_def

lemmas enc_simps =
  wasm_header_def enc_section_def custom_section_def custom_payload_def export_section_def
  export_payload_def namemap_def enc_subsection_def enc_sections_def leb128.simps

text \<open>One iteration of each loop that records the events, as conditional equations.\<close>

lemma name_subsections_log_lt:
  "pos < endp \<Longrightarrow> name_subsections_log buf endp pos =
     Varint (pos + 1) endp #
     (case parseVarint buf endp (pos + 1) 0 of
        Inl e \<Rightarrow> []
      | Inr (pos1, subsection_size) \<Rightarrow>
          if pos1 + unat subsection_size > endp then []
          else if buf ! pos \<noteq> 1 then
            name_subsections_log buf endp (pos1 + unat subsection_size)
          else
            Varint pos1 endp #
            (case parseVarint buf endp pos1 0 of
               Inl e \<Rightarrow> []
             | Inr (pos2, namemap_vector_size) \<Rightarrow>
                 if pos2 + unat namemap_vector_size > endp then []
                 else
                   (case namemap_loop_log buf endp (unat namemap_vector_size) pos2 of
                      (log, None) \<Rightarrow> log
                    | (log, Some pos3) \<Rightarrow>
                        if pos1 + unat subsection_size \<noteq> pos3 then log
                        else log @ name_subsections_log buf endp pos3)))"
  by (subst name_subsections_log.simps, unfold Let_def) simp

lemma name_subsections_log_ge:
  "\<not> pos < endp \<Longrightarrow> name_subsections_log buf endp pos = []"
  by (subst name_subsections_log.simps) simp

lemma custom_sections_log_lt:
  "pos < endp \<Longrightarrow> custom_sections_log buf endp name pos =
     Varint (pos + 1) endp #
     (case parseVarint buf endp (pos + 1) 0 of
        Inl e \<Rightarrow> []
      | Inr (pos1, section_len) \<Rightarrow>
          if pos1 + unat section_len > endp then []
          else if buf ! pos = 0 then
            Varint pos1 endp #
            (case parseVarint buf endp pos1 0 of
               Inl e \<Rightarrow> []
             | Inr (pos2, section_name_len) \<Rightarrow>
                 if pos2 + unat section_name_len > endp then []
                 else if unat section_name_len = length name \<and>
                         take (unat section_name_len) (drop pos2 buf) = name
                 then []
                 else custom_sections_log buf endp name (pos1 + unat section_len))
          else custom_sections_log buf endp name (pos1 + unat section_len))"
  by (subst custom_sections_log.simps, unfold Let_def) simp

lemma custom_sections_log_ge:
  "\<not> pos < endp \<Longrightarrow> custom_sections_log buf endp name pos = []"
  by (subst custom_sections_log.simps) simp

lemma strip_sections_log_lt:
  "pos < endp \<Longrightarrow> strip_sections_log buf endp pos =
     Varint (pos + 1) endp #
     (case parseVarint buf endp (pos + 1) 0 of
        Inl e \<Rightarrow> []
      | Inr (pos1, section_len) \<Rightarrow>
          if pos1 + unat section_len > endp then []
          else if buf ! pos = 0 then
            Varint pos1 endp #
            (case parseVarint buf endp pos1 0 of
               Inl e \<Rightarrow> []
             | Inr (pos2, section_name_len) \<Rightarrow>
                 if pos2 + unat section_name_len > endp then []
                 else
                   (if find_sub precompiled (take (unat section_name_len) (drop pos2 buf))
                    then [Precompiled pos] else []) @
                   strip_sections_log buf endp (pos1 + unat section_len))
          else Noncustom pos (pos1 + unat section_len) # strip_sections_log buf endp (pos1 + unat section_len))"
  by (subst strip_sections_log.simps, unfold Let_def) simp

lemma strip_sections_log_ge:
  "\<not> pos < endp \<Longrightarrow> strip_sections_log buf endp pos = []"
  by (subst strip_sections_log.simps) simp

lemma namemap_loop_log_numeral:
  "namemap_loop_log buf endp (numeral k) pos = namemap_loop_log buf endp (Suc (pred_numeral k)) pos"
  by (simp only: numeral_eq_Suc)

lemma reads_within_5:
  "reads_within buf endp 5 pos \<longleftrightarrow>
     pos + 1 > endp \<or> buf ! pos AND 0x80 = 0
     \<or> pos + 2 > endp \<or> buf ! (pos + 1) AND 0x80 = 0
     \<or> pos + 3 > endp \<or> buf ! (pos + 2) AND 0x80 = 0
     \<or> pos + 4 > endp \<or> buf ! (pos + 3) AND 0x80 = 0
     \<or> pos + 5 > endp \<or> buf ! (pos + 4) AND 0x80 = 0
     \<or> pos + 6 > endp"
proof -
  have 5: "(5 :: nat) = Suc (Suc (Suc (Suc (Suc 0))))" by simp
  show ?thesis
    unfolding 5 reads_within.simps by (simp add: numeral_eq_Suc)
qed

lemmas log_simps =
  getCustomSection_log_def getFunctionNameIndex_log_def getStrippedSource_log_def
  name_subsections_log_lt name_subsections_log_ge custom_sections_log_lt custom_sections_log_ge
  strip_sections_log_lt strip_sections_log_ge namemap_loop_log_numeral reads_within_5

section \<open>The decoder on LEB128 encodings\<close>

lemma byte_7f: "(0x7f :: byte) = mask 7"
  by (simp add: mask_eq_exp_minus_1)

lemma byte_80: "(0x80 :: byte) = push_bit 7 1"
  by simp

lemma of_nat_mod_128: "(of_nat (n mod 128) :: byte) = take_bit 7 (of_nat n)"
  by (simp only: take_bit_of_nat) (simp add: take_bit_eq_mod)

lemma of_nat_small: "n < 128 \<Longrightarrow> (of_nat n :: byte) = take_bit 7 (of_nat n)"
  by (simp only: take_bit_of_nat) (simp add: take_bit_eq_mod)

lemma low_bits_of_marked:
  "(take_bit k x OR push_bit k 1) AND mask k = (take_bit k x :: 'a::len word)"
  by (rule bit_word_eqI) (auto simp: bit_simps)

lemma mark_of_marked:
  "k < LENGTH('a) \<Longrightarrow> (take_bit k x OR push_bit k 1) AND push_bit k 1 \<noteq> (0 :: 'a::len word)"
proof
  assume k: "k < LENGTH('a)"
    and "(take_bit k x OR push_bit k 1) AND push_bit k 1 = (0 :: 'a word)"
  then have "bit ((take_bit k x OR push_bit k 1) AND (push_bit k 1 :: 'a word)) k
      = bit (0 :: 'a word) k"
    by simp
  then show False using k by (simp add: bit_simps)
qed

lemma mark_of_low_bits: "take_bit k x AND push_bit k 1 = (0 :: 'a::len word)"
  by (rule bit_word_eqI) (auto simp: bit_simps)

lemma low_bits_of_low_bits: "take_bit k x AND mask k = (take_bit k x :: 'a::len word)"
  by (rule bit_word_eqI) (auto simp: bit_simps)

lemma cont_byte_low: "(of_nat (n mod 128) OR (0x80 :: byte)) AND 0x7f = of_nat (n mod 128)"
  unfolding of_nat_mod_128 byte_7f byte_80 by (rule low_bits_of_marked)

lemma cont_byte_mark: "(of_nat (n mod 128) OR (0x80 :: byte)) AND 0x80 \<noteq> 0"
  unfolding of_nat_mod_128 byte_7f byte_80 by (rule mark_of_marked) simp

lemma last_byte_mark: "n < 128 \<Longrightarrow> (of_nat n :: byte) AND 0x80 = 0"
  by (subst of_nat_small, assumption) (simp only: byte_80 mark_of_low_bits)

lemma last_byte_low: "n < 128 \<Longrightarrow> (of_nat n :: byte) AND 0x7f = of_nat n"
  using low_bits_of_low_bits[of 7 "of_nat n :: byte"] of_nat_small[of n]
  by (simp only: byte_7f)

lemma ucast_low: "k < 128 \<Longrightarrow> (ucast (of_nat k :: byte) :: u32) = of_nat k"
  by (simp add: ucast_eq unsigned_of_nat take_bit_nat_eq_self)

lemma unat_shift_7: "unat (shift :: u32) + 7 < 2 ^ 32 \<Longrightarrow> unat (shift + 7) = unat shift + 7"
  by (simp add: unat_word_ariths)

lemma push_bit_split_128:
  "push_bit s (of_nat (n mod 128) :: u32) + push_bit (s + 7) (of_nat (n div 128))
     = push_bit s (of_nat n)"
proof -
  have "n = n mod 128 + 128 * (n div 128)" by simp
  then have "(of_nat n :: u32) = of_nat (n mod 128 + 128 * (n div 128))" by simp
  then have n: "(of_nat n :: u32) = of_nat (n mod 128) + 128 * of_nat (n div 128)"
    by (simp only: of_nat_add of_nat_mult of_nat_numeral)
  have p: "(2 :: u32) ^ (s + 7) = 2 ^ s * 128" by (simp add: power_add)
  show ?thesis
    unfolding push_bit_eq_mult n p by (simp add: algebra_simps)
qed

text \<open>
  The loop on an encoding that starts at \<open>pos\<close>, from any shift count and any
  accumulator: it reads the whole encoding and adds the shifted number.
\<close>

lemma parseVarint_loop_leb128:
  "length pre + length (leb128 n) \<le> endp \<Longrightarrow>
   unat shift + 7 * length (leb128 n) < 2 ^ 32 \<Longrightarrow>
   parseVarint_loop (pre @ leb128 n @ post) endp shift (length pre) ret =
     (if ret + push_bit (unat shift) (of_nat n) \<noteq> - 1
      then Inr (length pre + length (leb128 n), ret + push_bit (unat shift) (of_nat n))
      else Inl VarintOverflow)"
proof (induction n arbitrary: pre shift ret rule: leb128.induct)
  case (1 n)
  show ?case
  proof (cases "n < 128")
    case True
    then have enc: "leb128 n = [of_nat n]" by (simp add: leb128.simps)
    show ?thesis
      using "1.prems" True
      by (subst parseVarint_loop.simps)
         (simp add: enc Let_def last_byte_mark last_byte_low ucast_low)
  next
    case False
    define b :: byte where "b = of_nat (n mod 128) OR 0x80"
    have enc: "leb128 n = b # leb128 (n div 128)"
      using False by (subst leb128.simps) (simp add: b_def)
    have sh: "unat (shift + 7) = unat shift + 7"
      using "1.prems" by (intro unat_shift_7) (simp add: enc)
    have IH: "parseVarint_loop ((pre @ [b]) @ leb128 (n div 128) @ post) endp (shift + 7)
        (length (pre @ [b])) ret' =
      (if ret' + push_bit (unat (shift + 7)) (of_nat (n div 128)) \<noteq> - 1
       then Inr (length (pre @ [b]) + length (leb128 (n div 128)),
                 ret' + push_bit (unat (shift + 7)) (of_nat (n div 128)))
       else Inl VarintOverflow)" for ret'
      using "1.prems" False by (intro "1.IH") (simp_all add: enc sh)
    have step: "parseVarint_loop (pre @ leb128 n @ post) endp shift (length pre) ret =
       parseVarint_loop ((pre @ [b]) @ leb128 (n div 128) @ post) endp (shift + 7)
         (length (pre @ [b])) (ret + push_bit (unat shift) (of_nat (n mod 128)))"
      using "1.prems"
      by (subst parseVarint_loop.simps)
         (simp add: enc Let_def b_def cont_byte_mark cont_byte_low ucast_low)
    show ?thesis
      unfolding step IH sh
      by (simp add: enc add.assoc push_bit_split_128)
  qed
qed

lemma length_leb128_pos: "0 < length (leb128 n)"
  by (subst leb128.simps) simp

lemma length_leb128_le: "n < 2 ^ (7 * k) \<Longrightarrow> 0 < k \<Longrightarrow> length (leb128 n) \<le> k"
proof (induction n arbitrary: k rule: leb128.induct)
  case (1 n)
  show ?case
  proof (cases "n < 128")
    case True
    then show ?thesis using "1.prems" by (subst leb128.simps) simp
  next
    case False
    obtain j where k: "k = Suc j" using "1.prems" by (cases k) auto
    have "j \<noteq> 0"
    proof
      assume "j = 0"
      then have "n < 128" using "1.prems"(1) k by simp
      then show False using False by simp
    qed
    moreover have "n div 128 < 2 ^ (7 * j)"
    proof -
      have "n < 128 * 2 ^ (7 * j)" using "1.prems"(1) k by (simp add: power_add)
      then show ?thesis by (simp add: less_mult_imp_div_less mult.commute)
    qed
    ultimately have "length (leb128 (n div 128)) \<le> j"
      using False by (intro "1.IH") auto
    then show ?thesis using False k by (subst leb128.simps) simp
  qed
qed

lemma length_leb128_u32: "n < 2 ^ 32 \<Longrightarrow> length (leb128 n) \<le> 5"
  by (rule length_leb128_le[where k = 5]) simp_all

text \<open>A call with accumulator \<open>ret\<close> on the encoding of a number below \<open>2 ^ 32\<close>.\<close>

lemma parseVarint_leb128_acc:
  assumes "n < 2 ^ 32" and "length pre + length (leb128 n) \<le> endp"
  shows "parseVarint (pre @ leb128 n @ post) endp (length pre) ret =
     (if ret + of_nat n \<noteq> - 1 then Inr (length pre + length (leb128 n), ret + of_nat n)
      else Inl VarintOverflow)"
proof -
  have "7 * length (leb128 n) < (2 :: nat) ^ 32"
    using length_leb128_u32[OF assms(1)] by simp
  then show ?thesis
    unfolding parseVarint_def using assms(2)
    by (subst parseVarint_loop_leb128) simp_all
qed

lemma of_nat_not_sentinel: "n < 2 ^ 32 - 1 \<Longrightarrow> (of_nat n :: u32) \<noteq> - 1"
proof
  assume n: "n < 2 ^ 32 - 1" and "(of_nat n :: u32) = - 1"
  then have "unat (of_nat n :: u32) = unat (- 1 :: u32)" by simp
  then show False using n by (simp add: unat_of_nat unsigned_minus_1_eq_mask mask_eq_exp_minus_1)
qed

lemma unat_of_nat_u32: "n < 2 ^ 32 - 1 \<Longrightarrow> unat (of_nat n :: u32) = n"
  by (simp add: unat_of_nat)

lemma parseVarint_leb128:
  assumes "n < 2 ^ 32 - 1" and "length pre + length (leb128 n) \<le> endp"
  shows "parseVarint (pre @ leb128 n @ post) endp (length pre) 0 =
           Inr (length pre + length (leb128 n), of_nat n)"
  using assms of_nat_not_sentinel[OF assms(1)]
  by (subst parseVarint_leb128_acc) simp_all

text \<open>A run of bytes that all have the continuation bit set, up to \<open>endp\<close>.\<close>

lemma parseVarint_loop_all_continue:
  "(\<And>i. pos \<le> i \<Longrightarrow> i < endp \<Longrightarrow> buf ! i AND 0x80 \<noteq> 0) \<Longrightarrow>
   parseVarint_loop buf endp shift pos ret = Inl TruncatedInput"
proof (induction buf endp shift pos ret rule: parseVarint_loop.induct)
  case (1 buf endp shift pos ret)
  show ?case
  proof (cases "pos + 1 > endp")
    case True
    then show ?thesis by (subst parseVarint_loop.simps) simp
  next
    case False
    then have b: "buf ! pos AND 0x80 \<noteq> 0" using "1.prems"[of pos] by simp
    have "parseVarint_loop buf endp (shift + 7) (pos + 1)
            (ret + push_bit (unat shift) (ucast (buf ! pos AND 0x7f))) = Inl TruncatedInput"
      using False b "1.prems" by (intro "1.IH"[OF _ refl refl]) simp_all
    then show ?thesis using False b by (subst parseVarint_loop.simps) (simp add: Let_def)
  qed
qed

text \<open>
  An encoding padded with any number of continuation bytes \<open>80\<close> before a final
  \<open>00\<close> is read to its end and accepted: the loop has no bound on its length.
\<close>

lemma parseVarint_loop_padding:
  "parseVarint_loop (pre @ replicate k 0x80 @ [0x00]) (length pre + k + 1) shift (length pre) 0
     = Inr (length pre + k + 1, 0)"
proof (induction k arbitrary: pre shift)
  case 0
  show ?case by (subst parseVarint_loop.simps) simp
next
  case (Suc k)
  have "parseVarint_loop ((pre @ [0x80]) @ replicate k 0x80 @ [0x00]) (length (pre @ [0x80]) + k + 1)
          (shift + 7) (length (pre @ [0x80])) 0 = Inr (length (pre @ [0x80]) + k + 1, 0)"
    by (rule Suc.IH)
  then show ?case
    by (subst parseVarint_loop.simps) (simp add: Let_def)
qed

lemma padded_varint_accepted:
  "parseVarint (replicate k 0x80 @ [0x00]) (k + 1) 0 0 = Inr (k + 1, 0)"
  using parseVarint_loop_padding[of "[]" k 0] by (simp add: parseVarint_def)

section \<open>The loops on encoded sections\<close>

lemma parseVarint_at:
  assumes "buf = pre @ leb128 n @ post" and "pos = length pre"
    and "n < 2 ^ 32 - 1" and "pos + length (leb128 n) \<le> endp"
  shows "parseVarint buf endp pos 0 = Inr (pos + length (leb128 n), of_nat n)"
  using assms parseVarint_leb128[of n pre endp post] by simp

lemma length_enc_section:
  "length (enc_section ty payload) = 1 + length (leb128 (length payload)) + length payload"
  by (simp add: enc_section_def)

lemma length_custom_section:
  "length (custom_section name data) =
     1 + length (leb128 (length (custom_payload name data))) + length (custom_payload name data)"
  by (simp add: custom_section_def enc_section_def)

lemma length_custom_payload:
  "length (custom_payload name data) = length (leb128 (length name)) + length name + length data"
  by (simp add: custom_payload_def)

lemma take_drop_middle: "take (length xs) (drop (length pre) (pre @ xs @ post)) = xs"
  by simp

lemma enc_sections_Cons: "enc_sections (s # secs) = enc s @ enc_sections secs"
  by (simp add: enc_sections_def)

lemma enc_sections_Nil: "enc_sections [] = []"
  by (simp add: enc_sections_def)

lemma enc_sections_append: "enc_sections (xs @ ys) = enc_sections xs @ enc_sections ys"
  by (simp add: enc_sections_def)

lemma enc_as_section: "enc s = enc_section (sec_type s)
    (case s of Custom name data \<Rightarrow> custom_payload name data | Plain ty payload \<Rightarrow> payload)"
  by (cases s) (simp_all add: custom_section_def)

lemma checkWasmHeader_valid: "valid_header h \<Longrightarrow> checkWasmHeader (h @ rest)"
  by (simp add: valid_header_def checkWasmHeader_def)

text \<open>The type byte and the length varint at the head of a section.\<close>

lemma enc_section_head:
  fixes pre post payload :: bytes and endp :: nat
  assumes len: "length payload < 2 ^ 32 - 1"
    and endp: "length pre + length (enc_section ty payload) \<le> endp"
    and buf: "buf = pre @ enc_section ty payload @ post"
    and pos1: "pos1 = Suc (length pre + length (leb128 (length payload)))"
  shows "buf ! length pre = ty"
    and "parseVarint buf endp (Suc (length pre)) 0 = Inr (pos1, of_nat (length payload))"
    and "pos1 + length payload = length pre + length (enc_section ty payload)"
    and "unat (of_nat (length payload) :: u32) = length payload"
    and "length pre < endp"
proof -
  have b1: "buf = (pre @ [ty]) @ leb128 (length payload) @ (payload @ post)"
    by (simp add: buf enc_section_def)
  show "buf ! length pre = ty"
    by (simp add: buf enc_section_def)
  show "parseVarint buf endp (Suc (length pre)) 0 = Inr (pos1, of_nat (length payload))"
    using len endp parseVarint_at[OF b1, of "Suc (length pre)" endp]
    by (simp add: pos1 length_enc_section)
  show "pos1 + length payload = length pre + length (enc_section ty payload)"
    by (simp add: pos1 length_enc_section)
  show "unat (of_nat (length payload) :: u32) = length payload"
    using len by (simp add: unat_of_nat_u32)
  show "length pre < endp"
    using endp by (simp add: length_enc_section)
qed

text \<open>
  The two varints at the head of a custom section and the name that follows, as the
  section loops read them.
\<close>

lemma custom_section_head:
  fixes pre post name data :: bytes and endp :: nat
  assumes len: "length (custom_payload name data) < 2 ^ 32 - 1"
    and endp: "length pre + length (custom_section name data) \<le> endp"
    and buf: "buf = pre @ custom_section name data @ post"
    and pos1: "pos1 = Suc (length pre + length (leb128 (length (custom_payload name data))))"
    and pos2: "pos2 = pos1 + length (leb128 (length name))"
  shows "buf ! length pre = 0"
    and "parseVarint buf endp (Suc (length pre)) 0
           = Inr (pos1, of_nat (length (custom_payload name data)))"
    and "parseVarint buf endp pos1 0 = Inr (pos2, of_nat (length name))"
    and "take (length name) (drop pos2 buf) = name"
    and "pos1 + length (custom_payload name data) = length pre + length (custom_section name data)"
    and "pos2 + length name + length data = length pre + length (custom_section name data)"
    and "unat (of_nat (length (custom_payload name data)) :: u32) = length (custom_payload name data)"
    and "unat (of_nat (length name) :: u32) = length name"
    and "length pre < endp"
proof -
  define L where "L = length (custom_payload name data)"
  have b1: "buf = (pre @ [0]) @ leb128 L @ (custom_payload name data @ post)"
    by (simp add: buf custom_section_def enc_section_def L_def)
  have b2: "buf = (pre @ [0] @ leb128 L) @ leb128 (length name) @ (name @ data @ post)"
    by (simp add: buf custom_section_def enc_section_def L_def custom_payload_def)
  show "buf ! length pre = 0"
    by (simp add: buf custom_section_def enc_section_def)
  show "parseVarint buf endp (Suc (length pre)) 0
           = Inr (pos1, of_nat (length (custom_payload name data)))"
    using len endp parseVarint_at[OF b1, of "Suc (length pre)" endp]
    by (simp add: L_def pos1 length_custom_section)
  have k: "length name < 2 ^ 32 - 1"
    using len by (simp add: length_custom_payload)
  show "parseVarint buf endp pos1 0 = Inr (pos2, of_nat (length name))"
    using k endp parseVarint_at[OF b2, of pos1 endp]
    by (simp add: L_def pos1 pos2 length_custom_section length_custom_payload)
  have "take (length name) (drop (length (pre @ [0] @ leb128 L @ leb128 (length name)))
          ((pre @ [0] @ leb128 L @ leb128 (length name)) @ name @ (data @ post))) = name"
    by (rule take_drop_middle)
  then show "take (length name) (drop pos2 buf) = name"
    by (simp add: b2 pos2 pos1 L_def add.assoc)
  show "pos1 + length (custom_payload name data) = length pre + length (custom_section name data)"
    by (simp add: pos1 length_custom_section)
  show "pos2 + length name + length data = length pre + length (custom_section name data)"
    by (simp add: pos2 pos1 length_custom_section length_custom_payload)
  show "unat (of_nat (length (custom_payload name data)) :: u32) = length (custom_payload name data)"
    using len by (simp add: unat_of_nat_u32)
  show "unat (of_nat (length name) :: u32) = length name"
    using k by (simp add: unat_of_nat_u32)
  show "length pre < endp"
    using endp by (simp add: length_custom_section)
qed

subsection \<open>The loop of getStrippedSource\<close>

lemma strip_sections_plain:
  assumes ty: "ty \<noteq> 0" and len: "length payload < 2 ^ 32 - 1"
    and endp: "length pre + length (enc_section ty payload) \<le> endp"
  shows "strip_sections (pre @ enc_section ty payload @ post) endp (length pre) ret =
         strip_sections (pre @ enc_section ty payload @ post) endp
           (length pre + length (enc_section ty payload))
           (if ret \<noteq> [] then ret @ enc_section ty payload else ret)"
proof -
  define buf where "buf = pre @ enc_section ty payload @ post"
  define pos1 where "pos1 = Suc (length pre + length (leb128 (length payload)))"
  note h = enc_section_head[OF len endp buf_def pos1_def]
  have tk: "take (length (enc_section ty payload)) (drop (length pre) buf) = enc_section ty payload"
    unfolding buf_def by (rule take_drop_middle)
  show ?thesis
    unfolding buf_def[symmetric]
    using endp ty
    by (subst strip_sections_lt[OF h(5)]) (simp add: h(1-4) tk)
qed

lemma strip_sections_custom:
  assumes len: "length (custom_payload name data) < 2 ^ 32 - 1"
    and endp: "length pre + length (custom_section name data) \<le> endp"
  shows "strip_sections (pre @ custom_section name data @ post) endp (length pre) ret =
         strip_sections (pre @ custom_section name data @ post) endp
           (length pre + length (custom_section name data))
           (if find_sub precompiled name \<and> ret = [] then pre else ret)"
proof -
  define buf where "buf = pre @ custom_section name data @ post"
  define pos1 where "pos1 = Suc (length pre + length (leb128 (length (custom_payload name data))))"
  define pos2 where "pos2 = pos1 + length (leb128 (length name))"
  note h = custom_section_head[OF len endp buf_def pos1_def pos2_def]
  have le2: "pos2 + length name \<le> endp"
    using endp h(6) by simp
  have tk: "take (length pre) buf = pre" by (simp add: buf_def)
  show ?thesis
    unfolding buf_def[symmetric]
    using endp le2
    by (subst strip_sections_lt[OF h(9)]) (simp add: h(1-5,7,8) tk)
qed

lemma strip_sections_section:
  assumes "wf_section s" and "length pre + length (enc s) \<le> endp"
  shows "strip_sections (pre @ enc s @ post) endp (length pre) ret =
         strip_sections (pre @ enc s @ post) endp (length pre + length (enc s))
           (case s of
              Custom name data \<Rightarrow> if find_sub precompiled name \<and> ret = [] then pre else ret
            | Plain ty payload \<Rightarrow> if ret \<noteq> [] then ret @ enc s else ret)"
proof (cases s)
  case (Custom name data)
  then show ?thesis using assms strip_sections_custom[of name data pre endp post ret] by simp
next
  case (Plain ty payload)
  then show ?thesis using assms strip_sections_plain[of ty payload pre endp post ret] by simp
qed

lemma strip_sections_no_precompiled:
  assumes "\<forall>s \<in> set secs. wf_section s \<and> \<not> is_precompiled s"
    and "length pre + length (enc_sections secs) \<le> endp"
  shows "strip_sections (pre @ enc_sections secs @ post) endp (length pre) [] =
         strip_sections (pre @ enc_sections secs @ post) endp
           (length pre + length (enc_sections secs)) []"
  using assms
proof (induction secs arbitrary: pre)
  case Nil
  then show ?case by (simp add: enc_sections_Nil)
next
  case (Cons s secs)
  have wf: "wf_section s" and np: "\<not> is_precompiled s" using Cons.prems(1) by simp_all
  have le: "length pre + length (enc s) \<le> endp"
    using Cons.prems(2) by (simp add: enc_sections_Cons)
  have step: "strip_sections (pre @ enc s @ (enc_sections secs @ post)) endp (length pre) [] =
      strip_sections (pre @ enc s @ (enc_sections secs @ post)) endp (length pre + length (enc s)) []"
    using np strip_sections_section[OF wf le, of "enc_sections secs @ post" "[]"]
    by (cases s) simp_all
  have rest: "strip_sections ((pre @ enc s) @ enc_sections secs @ post) endp (length (pre @ enc s)) [] =
      strip_sections ((pre @ enc s) @ enc_sections secs @ post) endp
        (length (pre @ enc s) + length (enc_sections secs)) []"
    using Cons.prems by (intro Cons.IH) (simp_all add: enc_sections_Cons)
  show ?case
    using step rest by (simp add: enc_sections_Cons add.assoc)
qed

subsection \<open>The loop of getCustomSection\<close>

lemma custom_sections_plain:
  assumes ty: "ty \<noteq> 0" and len: "length payload < 2 ^ 32 - 1"
    and endp: "length pre + length (enc_section ty payload) \<le> endp"
  shows "custom_sections (pre @ enc_section ty payload @ post) endp name (length pre) ret =
         custom_sections (pre @ enc_section ty payload @ post) endp name
           (length pre + length (enc_section ty payload)) ret"
proof -
  define buf where "buf = pre @ enc_section ty payload @ post"
  define pos1 where "pos1 = Suc (length pre + length (leb128 (length payload)))"
  note h = enc_section_head[OF len endp buf_def pos1_def]
  show ?thesis
    unfolding buf_def[symmetric]
    using endp ty
    by (subst custom_sections_lt[OF h(5)]) (simp add: h(1-4))
qed

lemma custom_sections_other_name:
  assumes len: "length (custom_payload n data) < 2 ^ 32 - 1"
    and endp: "length pre + length (custom_section n data) \<le> endp"
    and ne: "n \<noteq> name"
  shows "custom_sections (pre @ custom_section n data @ post) endp name (length pre) ret =
         custom_sections (pre @ custom_section n data @ post) endp name
           (length pre + length (custom_section n data)) ret"
proof -
  define buf where "buf = pre @ custom_section n data @ post"
  define pos1 where "pos1 = Suc (length pre + length (leb128 (length (custom_payload n data))))"
  define pos2 where "pos2 = pos1 + length (leb128 (length n))"
  note h = custom_section_head[OF len endp buf_def pos1_def pos2_def]
  have le2: "pos2 + length n \<le> endp"
    using endp h(6) by simp
  show ?thesis
    unfolding buf_def[symmetric]
    using endp le2 ne
    by (subst custom_sections_lt[OF h(9)]) (auto simp add: h(1-5,7,8))
qed

lemma custom_sections_hit:
  assumes len: "length (custom_payload name data) < 2 ^ 32 - 1"
    and endp: "length pre + length (custom_section name data) \<le> endp"
  shows "custom_sections (pre @ custom_section name data @ post) endp name (length pre) ret =
         Inr (length pre + length (custom_section name data) - length data,
              length pre + length (custom_section name data))"
proof -
  define buf where "buf = pre @ custom_section name data @ post"
  define pos1 where "pos1 = Suc (length pre + length (leb128 (length (custom_payload name data))))"
  define pos2 where "pos2 = pos1 + length (leb128 (length name))"
  note h = custom_section_head[OF len endp buf_def pos1_def pos2_def]
  have le2: "pos2 + length name \<le> endp"
    using endp h(6) by simp
  have p: "pos2 + length name = length pre + length (custom_section name data) - length data"
    using h(6) by simp
  show ?thesis
    unfolding buf_def[symmetric]
    using endp le2
    by (subst custom_sections_lt[OF h(9)]) (simp add: h(1-5,7,8) p)
qed

lemma custom_sections_skip:
  assumes "\<forall>s \<in> set secs. wf_section s \<and> \<not> is_named name s"
    and "length pre + length (enc_sections secs) \<le> endp"
  shows "custom_sections (pre @ enc_sections secs @ post) endp name (length pre) ret =
         custom_sections (pre @ enc_sections secs @ post) endp name
           (length pre + length (enc_sections secs)) ret"
  using assms
proof (induction secs arbitrary: pre)
  case Nil
  then show ?case by (simp add: enc_sections_Nil)
next
  case (Cons s secs)
  have wf: "wf_section s" and nn: "\<not> is_named name s" using Cons.prems(1) by simp_all
  have le: "length pre + length (enc s) \<le> endp"
    using Cons.prems(2) by (simp add: enc_sections_Cons)
  have step: "custom_sections (pre @ enc s @ (enc_sections secs @ post)) endp name (length pre) ret =
      custom_sections (pre @ enc s @ (enc_sections secs @ post)) endp name (length pre + length (enc s)) ret"
  proof (cases s)
    case (Custom n data)
    then show ?thesis
      using wf nn le custom_sections_other_name[of n data pre endp name "enc_sections secs @ post" ret]
      by simp
  next
    case (Plain ty payload)
    then show ?thesis
      using wf le custom_sections_plain[of ty payload pre endp "enc_sections secs @ post" name ret]
      by simp
  qed
  have rest: "custom_sections ((pre @ enc s) @ enc_sections secs @ post) endp name (length (pre @ enc s)) ret =
      custom_sections ((pre @ enc s) @ enc_sections secs @ post) endp name
        (length (pre @ enc s) + length (enc_sections secs)) ret"
    using Cons.prems by (intro Cons.IH) (simp_all add: enc_sections_Cons)
  show ?case
    using step rest by (simp add: enc_sections_Cons add.assoc)
qed

text \<open>getCustomSection on a module without a section of the name, and on one with it.\<close>

lemma getCustomSection_absent:
  assumes "valid_header h" and "\<forall>s \<in> set secs. wf_section s \<and> \<not> is_named name s"
  shows "getCustomSection (h @ enc_sections secs) name ret = Inr ret"
proof -
  have h8: "length h = 8" using assms(1) by (simp add: valid_header_def)
  have "custom_sections (h @ enc_sections secs @ []) (length (h @ enc_sections secs)) name (length h) ret =
      custom_sections (h @ enc_sections secs @ []) (length (h @ enc_sections secs)) name
        (length h + length (enc_sections secs)) ret"
    using assms(2) by (intro custom_sections_skip) simp_all
  then have "custom_sections (h @ enc_sections secs) (length (h @ enc_sections secs)) name 8 ret = Inr ret"
    by (simp add: h8 custom_sections_ge)
  then show ?thesis
    using checkWasmHeader_valid[OF assms(1)] by (simp add: getCustomSection_def)
qed

lemma getCustomSection_present:
  assumes "valid_header h" and "\<forall>s \<in> set secs. wf_section s \<and> \<not> is_named name s"
    and "length (custom_payload name data) < 2 ^ 32 - 1"
    and "dend = length (h @ enc_sections secs @ custom_section name data)"
  shows "getCustomSection (h @ enc_sections secs @ custom_section name data @ tail) name ret
           = Inr (dend - length data, dend)"
proof -
  define buf where "buf = h @ enc_sections secs @ custom_section name data @ tail"
  have h8: "length h = 8" using assms(1) by (simp add: valid_header_def)
  have "custom_sections (h @ enc_sections secs @ (custom_section name data @ tail)) (length buf) name (length h) ret =
      custom_sections (h @ enc_sections secs @ (custom_section name data @ tail)) (length buf) name
        (length h + length (enc_sections secs)) ret"
    using assms(2) by (intro custom_sections_skip) (simp_all add: buf_def)
  moreover have "custom_sections ((h @ enc_sections secs) @ custom_section name data @ tail) (length buf) name
      (length (h @ enc_sections secs)) ret = Inr (dend - length data, dend)"
    using assms(3) by (subst custom_sections_hit) (simp_all add: buf_def assms(4))
  ultimately have "custom_sections buf (length buf) name 8 ret = Inr (dend - length data, dend)"
    by (simp add: h8 buf_def)
  moreover have "checkWasmHeader buf"
    unfolding buf_def by (rule checkWasmHeader_valid[OF assms(1)])
  ultimately show ?thesis
    by (simp add: getCustomSection_def buf_def)
qed

subsection \<open>The loops of getFunctionNameIndex\<close>

lemma insert_all_eq: "insert_all m ps = map_of ps ++ m"
proof (induction ps arbitrary: m)
  case Nil
  then show ?case by simp
next
  case (Cons p ps)
  obtain i n where p: "p = (i, n)" by (cases p)
  have "map_of ps ++ map_insert m i n = (map_of ps)(i \<mapsto> n) ++ m"
    by (rule ext) (auto simp: map_add_def map_insert_def split: option.splits)
  then show ?case using Cons.IH[of "map_insert m i n"] by (simp add: p fun_upd_def)
qed

lemma enc_subsection_eq: "enc_subsection sid body = enc_section sid body"
  by (simp add: enc_subsection_def enc_section_def)

lemma unat_index: "i \<noteq> (- 1 :: u32) \<Longrightarrow> unat i < 2 ^ 32 - 1"
proof -
  assume i: "i \<noteq> - 1"
  have "unat i < 2 ^ 32" using unsigned_less[of i] by simp
  moreover have "unat i \<noteq> 2 ^ 32 - 1"
  proof
    assume "unat i = 2 ^ 32 - 1"
    then have "unat i = unat (- 1 :: u32)"
      by (simp add: unsigned_minus_1_eq_mask mask_eq_exp_minus_1)
    then show False using i by (simp add: word_unat_eq_iff)
  qed
  ultimately show ?thesis by simp
qed

lemma length_enc_pair:
  "length (enc_pair (i, n)) = length (leb128 (unat i)) + length (leb128 (length n)) + length n"
  by simp

lemma namemap_loop_pair:
  assumes wf: "wf_pair (i, n)"
    and endp: "length pre + length (enc_pair (i, n)) \<le> endp"
  shows "namemap_loop (pre @ enc_pair (i, n) @ post) endp (Suc k) (length pre) ret =
         namemap_loop (pre @ enc_pair (i, n) @ post) endp k (length pre + length (enc_pair (i, n)))
           (map_insert ret i n)"
proof -
  define buf where "buf = pre @ enc_pair (i, n) @ post"
  define pos1 where "pos1 = length pre + length (leb128 (unat i))"
  define pos2 where "pos2 = pos1 + length (leb128 (length n))"
  have b1: "buf = pre @ leb128 (unat i) @ (leb128 (length n) @ n @ post)"
    by (simp add: buf_def)
  have b2: "buf = (pre @ leb128 (unat i)) @ leb128 (length n) @ (n @ post)"
    by (simp add: buf_def)
  have b3: "buf = (pre @ leb128 (unat i) @ leb128 (length n)) @ n @ post"
    by (simp add: buf_def)
  have v1: "parseVarint buf endp (length pre) 0 = Inr (pos1, i)"
    using wf endp parseVarint_at[OF b1 refl, of endp] unat_index[of i]
    by (simp add: pos1_def)
  have v2: "parseVarint buf endp pos1 0 = Inr (pos2, of_nat (length n))"
    using wf endp parseVarint_at[OF b2, of pos1 endp]
    by (simp add: pos1_def pos2_def)
  have u: "unat (of_nat (length n) :: u32) = length n"
    using wf by (simp add: unat_of_nat_u32)
  have "take (length n) (drop (length (pre @ leb128 (unat i) @ leb128 (length n))) buf) = n"
    unfolding b3 by (rule take_drop_middle)
  then have tk: "take (length n) (drop pos2 buf) = n"
    by (simp add: pos2_def pos1_def add.assoc)
  have e: "pos2 + length n = length pre + length (enc_pair (i, n))"
    by (simp add: pos2_def pos1_def)
  show ?thesis
    unfolding buf_def[symmetric]
    using endp
    by (simp add: v1 v2 u tk e del: enc_pair.simps)
qed

lemma namemap_loop_enc:
  assumes "\<forall>p \<in> set ps. wf_pair p"
    and "length pre + length (concat (map enc_pair ps)) \<le> endp"
  shows "namemap_loop (pre @ concat (map enc_pair ps) @ post) endp (length ps) (length pre) ret =
         Inr (length pre + length (concat (map enc_pair ps)), insert_all ret ps)"
  using assms
proof (induction ps arbitrary: pre ret)
  case Nil
  then show ?case by simp
next
  case (Cons p ps)
  obtain i n where p: "p = (i, n)" by (cases p)
  have wf: "wf_pair (i, n)" using Cons.prems(1) p by simp
  have le: "length pre + length (enc_pair (i, n)) \<le> endp"
    using Cons.prems(2) p by simp
  have step: "namemap_loop (pre @ enc_pair (i, n) @ (concat (map enc_pair ps) @ post)) endp
        (Suc (length ps)) (length pre) ret =
      namemap_loop (pre @ enc_pair (i, n) @ (concat (map enc_pair ps) @ post)) endp (length ps)
        (length pre + length (enc_pair (i, n))) (map_insert ret i n)"
    by (rule namemap_loop_pair[OF wf le])
  have rest: "namemap_loop ((pre @ enc_pair (i, n)) @ concat (map enc_pair ps) @ post) endp
        (length ps) (length (pre @ enc_pair (i, n))) (map_insert ret i n) =
      Inr (length (pre @ enc_pair (i, n)) + length (concat (map enc_pair ps)),
           insert_all (map_insert ret i n) ps)"
    using Cons.prems p by (intro Cons.IH) simp_all
  show ?case
    using step rest by (simp add: p add.assoc)
qed

lemma length_pairs_le: "length ps \<le> length (concat (map enc_pair ps))"
proof (induction ps)
  case Nil
  then show ?case by simp
next
  case (Cons p ps)
  obtain i n where p: "p = (i, n)" by (cases p)
  have "1 \<le> length (leb128 (unat i))"
    using length_leb128_pos[of "unat i"] by linarith
  then have "1 \<le> length (enc_pair p)" by (simp add: p)
  moreover have "length (concat (map enc_pair (p # ps))) =
      length (enc_pair p) + length (concat (map enc_pair ps))"
    by simp
  ultimately show ?case using Cons by simp
qed

lemma length_namemap:
  "length (namemap ps) = length (leb128 (length ps)) + length (concat (map enc_pair ps))"
  by (simp add: namemap_def)


lemma length_enc_subsection:
  "length (enc_subsection sid body) = 1 + length (leb128 (length body)) + length body"
  by (simp add: enc_subsection_def)

lemma name_subsections_other:
  assumes sid: "sid \<noteq> 1" and len: "length body < 2 ^ 32 - 1"
    and endp: "length pre + length (enc_subsection sid body) \<le> endp"
  shows "name_subsections (pre @ enc_subsection sid body @ post) endp (length pre) ret =
         name_subsections (pre @ enc_subsection sid body @ post) endp
           (length pre + length (enc_subsection sid body)) ret"
proof -
  define buf where "buf = pre @ enc_section sid body @ post"
  define pos1 where "pos1 = Suc (length pre + length (leb128 (length body)))"
  have endp': "length pre + length (enc_section sid body) \<le> endp"
    using endp by (simp add: enc_subsection_eq)
  note h = enc_section_head[OF len endp' buf_def pos1_def]
  show ?thesis
    unfolding enc_subsection_eq buf_def[symmetric]
    using endp' sid
    by (subst name_subsections_lt[OF h(5)]) (simp add: h(1-4))
qed

text \<open>
  A function name subsection with declared size \<open>s\<close> and a well-formed vector of pairs:
  the pairs are inserted, then the declared end is compared with the cursor.
\<close>

lemma name_subsections_funcs:
  assumes s: "s < 2 ^ 32 - 1" and wf: "\<forall>p \<in> set ps. wf_pair p"
    and cnt: "length ps < 2 ^ 32 - 1"
    and fit: "pos1 + s \<le> endp" and fit2: "pos1 + length (namemap ps) \<le> endp"
    and buf: "buf = pre @ [1] @ leb128 s @ namemap ps @ post"
    and pos1: "pos1 = Suc (length pre + length (leb128 s))"
  shows "name_subsections buf endp (length pre) ret =
     (if s = length (namemap ps)
      then name_subsections buf endp (pos1 + s) (insert_all ret ps)
      else Inl (MalformedSection, insert_all ret ps))"
proof -
  define pos2 where "pos2 = pos1 + length (leb128 (length ps))"
  define pos3 where "pos3 = pos2 + length (concat (map enc_pair ps))"
  have b1: "buf = (pre @ [1]) @ leb128 s @ (namemap ps @ post)"
    by (simp add: buf)
  have b2: "buf = (pre @ [1] @ leb128 s) @ leb128 (length ps) @ (concat (map enc_pair ps) @ post)"
    by (simp add: buf namemap_def)
  have b3: "buf = (pre @ [1] @ leb128 s @ leb128 (length ps)) @ concat (map enc_pair ps) @ post"
    by (simp add: buf namemap_def)
  have lt: "length pre < endp" using fit pos1 by simp
  have t: "buf ! length pre = 1" by (simp add: buf)
  have v1: "parseVarint buf endp (Suc (length pre)) 0 = Inr (pos1, of_nat s)"
    using s fit parseVarint_at[OF b1, of "Suc (length pre)" endp]
    by (simp add: pos1)
  have u1: "unat (of_nat s :: u32) = s" using s by (simp add: unat_of_nat_u32)
  have v2: "parseVarint buf endp pos1 0 = Inr (pos2, of_nat (length ps))"
    using cnt fit2 parseVarint_at[OF b2, of pos1 endp]
    by (simp add: pos1 pos2_def length_namemap)
  have u2: "unat (of_nat (length ps) :: u32) = length ps" using cnt by (simp add: unat_of_nat_u32)
  have p3: "pos3 = pos1 + length (namemap ps)"
    by (simp add: pos3_def pos2_def length_namemap)
  have le3: "pos3 \<le> endp" using fit2 p3 by simp
  have le2: "pos2 + length ps \<le> endp"
    using le3 length_pairs_le[of ps] by (simp add: pos3_def)
  have "namemap_loop ((pre @ [1] @ leb128 s @ leb128 (length ps)) @ concat (map enc_pair ps) @ post)
          endp (length ps) (length (pre @ [1] @ leb128 s @ leb128 (length ps))) ret =
        Inr (length (pre @ [1] @ leb128 s @ leb128 (length ps)) + length (concat (map enc_pair ps)),
             insert_all ret ps)"
    using wf le3 by (intro namemap_loop_enc) (simp_all add: pos3_def pos2_def pos1 add.assoc)
  then have nl: "namemap_loop buf endp (length ps) pos2 ret = Inr (pos3, insert_all ret ps)"
    by (simp add: b3 pos3_def pos2_def pos1 add.assoc)
  have main: "name_subsections buf endp (length pre) ret =
     (if pos1 + s \<noteq> pos3 then Inl (MalformedSection, insert_all ret ps)
      else name_subsections buf endp pos3 (insert_all ret ps))"
    using fit le2
    by (subst name_subsections_lt[OF lt]) (simp add: t v1 u1 v2 u2 nl)
  show ?thesis
    unfolding main using p3 by auto
qed

lemma enc_subsections_Cons:
  "enc_subsections ((sid, body) # subs) = enc_subsection sid body @ enc_subsections subs"
  by (simp add: enc_subsections_def)

lemma enc_subsections_Nil: "enc_subsections [] = []"
  by (simp add: enc_subsections_def)

lemma name_subsections_skip:
  assumes "\<forall>(sid, body) \<in> set subs. sid \<noteq> 1 \<and> length body < 2 ^ 32 - 1"
    and "length pre + length (enc_subsections subs) \<le> endp"
  shows "name_subsections (pre @ enc_subsections subs @ post) endp (length pre) ret =
         name_subsections (pre @ enc_subsections subs @ post) endp
           (length pre + length (enc_subsections subs)) ret"
  using assms
proof (induction subs arbitrary: pre)
  case Nil
  then show ?case by (simp add: enc_subsections_Nil)
next
  case (Cons x subs)
  obtain sid body where x: "x = (sid, body)" by (cases x)
  have sid: "sid \<noteq> 1" and len: "length body < 2 ^ 32 - 1" using Cons.prems(1) x by simp_all
  have le: "length pre + length (enc_subsection sid body) \<le> endp"
    using Cons.prems(2) x by (simp add: enc_subsections_Cons)
  have step: "name_subsections (pre @ enc_subsection sid body @ (enc_subsections subs @ post)) endp (length pre) ret =
      name_subsections (pre @ enc_subsection sid body @ (enc_subsections subs @ post)) endp
        (length pre + length (enc_subsection sid body)) ret"
    by (rule name_subsections_other[OF sid len le])
  have rest: "name_subsections ((pre @ enc_subsection sid body) @ enc_subsections subs @ post) endp
        (length (pre @ enc_subsection sid body)) ret =
      name_subsections ((pre @ enc_subsection sid body) @ enc_subsections subs @ post) endp
        (length (pre @ enc_subsection sid body) + length (enc_subsections subs)) ret"
    using Cons.prems x by (intro Cons.IH) (simp_all add: enc_subsections_Cons)
  show ?case
    using step rest by (simp add: x enc_subsections_Cons add.assoc)
qed


lemma length_namemap_count: "length ps \<le> length (namemap ps)"
  using length_pairs_le[of ps] by (simp add: length_namemap)

lemma name_subsections_well_formed:
  assumes before: "\<forall>(sid, body) \<in> set before. sid \<noteq> 1 \<and> length body < 2 ^ 32 - 1"
    and after: "\<forall>(sid, body) \<in> set after. sid \<noteq> 1 \<and> length body < 2 ^ 32 - 1"
    and wf: "\<forall>p \<in> set ps. wf_pair p" and len: "length (namemap ps) < 2 ^ 32 - 1"
    and P: "P = enc_subsections before @ enc_subsection 1 (namemap ps) @ enc_subsections after"
    and endp: "endp = length pre + length P"
  shows "name_subsections (pre @ P @ post) endp (length pre) ret = Inr (insert_all ret ps)"
proof -
  define buf where "buf = pre @ P @ post"
  define b where "b = enc_subsections before"
  define a where "a = enc_subsections after"
  define s where "s = length (namemap ps)"
  define q1 where "q1 = length (pre @ b)"
  define pos1 where "pos1 = Suc (q1 + length (leb128 s))"
  define q2 where "q2 = pos1 + s"
  have P': "P = b @ [1] @ leb128 s @ namemap ps @ a"
    by (simp add: P b_def a_def s_def enc_subsection_def)
  have q2: "q2 = length (pre @ b @ [1] @ leb128 s @ namemap ps)"
    by (simp add: q2_def pos1_def q1_def s_def)
  have e: "q2 + length a = endp"
    by (simp add: endp P' q2)
  have "name_subsections buf endp (length pre) ret = name_subsections buf endp q1 ret"
    using name_subsections_skip[OF before, of pre endp "[1] @ leb128 s @ namemap ps @ a @ post" ret]
    by (simp add: buf_def P' endp b_def q1_def)
  also have "\<dots> = (if s = length (namemap ps)
       then name_subsections buf endp (pos1 + s) (insert_all ret ps)
       else Inl (MalformedSection, insert_all ret ps))"
    unfolding q1_def
    using len length_namemap_count[of ps]
    by (intro name_subsections_funcs[OF _ wf _ _ _ _ pos1_def[unfolded q1_def], where post = "a @ post"])
       (simp_all add: s_def buf_def P' endp pos1_def q1_def)
  also have "\<dots> = name_subsections buf endp q2 (insert_all ret ps)"
    by (simp add: s_def q2_def)
  also have "\<dots> = name_subsections buf endp (q2 + length a) (insert_all ret ps)"
    unfolding q2
    using name_subsections_skip[OF after, of "pre @ b @ [1] @ leb128 s @ namemap ps" endp post "insert_all ret ps"]
    by (simp add: buf_def P' endp a_def)
  also have "\<dots> = Inr (insert_all ret ps)"
    unfolding e by (simp add: name_subsections_ge)
  finally show ?thesis by (simp add: buf_def)
qed

lemma name_subsections_bad_size:
  assumes before: "\<forall>(sid, body) \<in> set before. sid \<noteq> 1 \<and> length body < 2 ^ 32 - 1"
    and wf: "\<forall>p \<in> set ps. wf_pair p" and cnt: "length ps < 2 ^ 32 - 1"
    and s: "s < 2 ^ 32 - 1" "s \<noteq> length (namemap ps)" "s \<le> length (namemap ps @ rest)"
    and P: "P = enc_subsections before @ [1] @ leb128 s @ namemap ps @ rest"
    and endp: "endp = length pre + length P"
  shows "name_subsections (pre @ P @ post) endp (length pre) ret
           = Inl (MalformedSection, insert_all ret ps)"
proof -
  define buf where "buf = pre @ P @ post"
  define b where "b = enc_subsections before"
  define pos1 where "pos1 = Suc (length (pre @ b) + length (leb128 s))"
  have P': "P = b @ [1] @ leb128 s @ namemap ps @ rest"
    by (simp add: P b_def)
  have 1: "name_subsections buf endp (length pre) ret = name_subsections buf endp (length pre + length b) ret"
    using name_subsections_skip[OF before, of pre endp "[1] @ leb128 s @ namemap ps @ rest @ post" ret]
    by (simp add: buf_def P' endp b_def)
  have 2: "name_subsections buf endp (length (pre @ b)) ret =
      (if s = length (namemap ps)
       then name_subsections buf endp (pos1 + s) (insert_all ret ps)
       else Inl (MalformedSection, insert_all ret ps))"
    using s(3)
    by (intro name_subsections_funcs[OF s(1) wf cnt _ _ _ pos1_def, where post = "rest @ post"])
       (simp_all add: buf_def P' endp pos1_def)
  have "name_subsections buf endp (length pre) ret = Inl (MalformedSection, insert_all ret ps)"
    unfolding 1 using 2 s(2) by simp
  then show ?thesis by (simp add: buf_def)
qed

text \<open>getFunctionNameIndex hands the payload of the name section to the subsection loop.\<close>

lemma getFunctionNameIndex_name_section:
  assumes h: "valid_header h"
    and secs: "\<forall>s \<in> set secs. wf_section s \<and> \<not> is_named (str ''name'') s"
    and len: "length (custom_payload (str ''name'') P) < 2 ^ 32 - 1"
    and pre: "pre = h @ enc_sections secs @ [0] @ leb128 (length (custom_payload (str ''name'') P))
                @ leb128 (length (str ''name'')) @ str ''name''"
  shows "h @ enc_sections secs @ custom_section (str ''name'') P @ tail = pre @ P @ tail"
    and "getFunctionNameIndex (pre @ P @ tail) m =
          (if P = [] then Inr m
           else name_subsections (pre @ P @ tail) (length pre + length P) (length pre) m)"
proof -
  show eq: "h @ enc_sections secs @ custom_section (str ''name'') P @ tail = pre @ P @ tail"
    by (simp add: pre custom_section_def enc_section_def custom_payload_def)
  have dend: "length (h @ enc_sections secs @ custom_section (str ''name'') P) = length pre + length P"
    by (simp add: pre custom_section_def enc_section_def custom_payload_def)
  have "getCustomSection (h @ enc_sections secs @ custom_section (str ''name'') P @ tail) (str ''name'') (0, 0)
      = Inr (length pre + length P - length P, length pre + length P)"
    using getCustomSection_present[OF h secs len refl, of tail "(0, 0)"] dend by simp
  then have "getCustomSection (pre @ P @ tail) (str ''name'') (0, 0) = Inr (length pre, length pre + length P)"
    by (simp add: eq)
  then show "getFunctionNameIndex (pre @ P @ tail) m =
          (if P = [] then Inr m
           else name_subsections (pre @ P @ tail) (length pre + length P) (length pre) m)"
    by (simp add: getFunctionNameIndex_def)
qed

lemma map_of_first:
  "i \<notin> fst ` set xs \<Longrightarrow> map_of (xs @ (i, a) # ys) i = Some a"
  by (induction xs) auto

lemma valid_wasm_header: "valid_header wasm_header"
  by (simp add: valid_header_def wasm_header_def wasm_magic_number_def)

subsection \<open>What a failing run leaves in the output\<close>

lemma parseVarint_loop_error:
  "parseVarint_loop buf endp shift pos ret = Inl e \<Longrightarrow> e = TruncatedInput \<or> e = VarintOverflow"
proof (induction buf endp shift pos ret rule: parseVarint_loop.induct)
  case (1 buf endp shift pos ret)
  show ?case
    using "1.prems" "1.IH"[OF _ refl refl]
    by (subst (asm) parseVarint_loop.simps) (auto simp: Let_def split: if_splits)
qed

lemma parseVarint_error:
  "parseVarint buf endp pos ret = Inl e \<Longrightarrow> e = TruncatedInput \<or> e = VarintOverflow"
  unfolding parseVarint_def by (rule parseVarint_loop_error)

lemma map_insert_le: "m \<subseteq>\<^sub>m map_insert m k v"
  by (auto simp: map_le_def map_insert_def split: option.splits)

lemma namemap_loop_le:
  "namemap_loop buf endp n pos ret = r \<Longrightarrow>
   (case r of Inl (e, m) \<Rightarrow> ret \<subseteq>\<^sub>m m \<and> e \<noteq> InvalidHeader | Inr (pos', m) \<Rightarrow> ret \<subseteq>\<^sub>m m)"
proof (induction n arbitrary: pos ret r)
  case 0
  then show ?case by auto
next
  case (Suc n)
  show ?case
  proof (cases "parseVarint buf endp pos 0")
    case (Inl e)
    then show ?thesis using Suc.prems parseVarint_error[OF Inl] by auto
  next
    case (Inr a)
    obtain pos1 func_index where a: "a = (pos1, func_index)" by (cases a)
    show ?thesis
    proof (cases "parseVarint buf endp pos1 0")
      case (Inl e)
      then show ?thesis using Suc.prems Inr a parseVarint_error[OF Inl] by auto
    next
      case Inr2: (Inr c)
      obtain pos2 sz where c: "c = (pos2, sz)" by (cases c)
      show ?thesis
      proof (cases "pos2 + unat sz > endp")
        case True
        then show ?thesis using Suc.prems Inr a Inr2 c by auto
      next
        case False
        define ret' where "ret' = map_insert ret func_index (take (unat sz) (drop pos2 buf))"
        have "namemap_loop buf endp n (pos2 + unat sz) ret' = r"
          using Suc.prems Inr a Inr2 c False by (simp add: ret'_def)
        from Suc.IH[OF this] have
          "case r of Inl (e, m) \<Rightarrow> ret' \<subseteq>\<^sub>m m \<and> e \<noteq> InvalidHeader | Inr (pos', m) \<Rightarrow> ret' \<subseteq>\<^sub>m m" .
        moreover have "ret \<subseteq>\<^sub>m ret'" unfolding ret'_def by (rule map_insert_le)
        ultimately show ?thesis
          by (auto split: sum.splits prod.splits intro: map_le_trans)
      qed
    qed
  qed
qed


lemma name_subsections_le:
  "name_subsections buf endp pos ret = Inl (e, m) \<Longrightarrow> ret \<subseteq>\<^sub>m m \<and> e \<noteq> InvalidHeader"
proof (induction "endp - pos" arbitrary: pos ret rule: less_induct)
  case less
  show ?case
  proof (cases "pos < endp")
    case False
    then show ?thesis using less.prems by (simp add: name_subsections_ge)
  next
    case True
    note IH = less.hyps
    show ?thesis
    proof (cases "parseVarint buf endp (pos + 1) 0")
      case (Inl e1)
      then show ?thesis
        using less.prems parseVarint_error[OF Inl] by (auto simp: name_subsections_lt[OF True])
    next
      case (Inr a)
      obtain pos1 sz where a: "a = (pos1, sz)" by (cases a)
      have p1: "pos < pos1" using parseVarint_pos[of buf endp "pos + 1" 0 pos1 sz] Inr a by simp
      show ?thesis
      proof (cases "pos1 + unat sz > endp")
        case True2: True
        then show ?thesis
          using less.prems Inr a by (auto simp: name_subsections_lt[OF True])
      next
        case False
        show ?thesis
        proof (cases "buf ! pos \<noteq> 1")
          case T: True
          then have "name_subsections buf endp (pos1 + unat sz) ret = Inl (e, m)"
            using less.prems Inr a False by (simp add: name_subsections_lt[OF True])
          moreover have "endp - (pos1 + unat sz) < endp - pos" using p1 True by simp
          ultimately show ?thesis by (rule IH[rotated])
        next
          case F: False
          show ?thesis
          proof (cases "parseVarint buf endp pos1 0")
            case Inl2: (Inl e2)
            then show ?thesis
              using less.prems Inr a False F parseVarint_error[OF Inl2]
              by (auto simp: name_subsections_lt[OF True])
          next
            case Inr2: (Inr c)
            obtain pos2 cnt where c: "c = (pos2, cnt)" by (cases c)
            have p2: "pos1 < pos2" using parseVarint_pos[of buf endp pos1 0 pos2 cnt] Inr2 c by simp
            show ?thesis
            proof (cases "pos2 + unat cnt > endp")
              case T3: True
              then show ?thesis
                using less.prems Inr a False F Inr2 c
                by (auto simp: name_subsections_lt[OF True])
            next
              case F3: False
              show ?thesis
              proof (cases "namemap_loop buf endp (unat cnt) pos2 ret")
                case Inl3: (Inl x)
                obtain e3 m3 where x: "x = (e3, m3)" by (cases x)
                have "ret \<subseteq>\<^sub>m m3 \<and> e3 \<noteq> InvalidHeader"
                  using namemap_loop_le[OF Inl3] x by simp
                then show ?thesis
                  using less.prems Inr a False F Inr2 c F3 Inl3 x
                  by (auto simp: name_subsections_lt[OF True])
              next
                case Inr3: (Inr y)
                obtain pos3 ret' where y: "y = (pos3, ret')" by (cases y)
                have le: "ret \<subseteq>\<^sub>m ret'" using namemap_loop_le[OF Inr3] y by simp
                have p3: "pos2 \<le> pos3" using namemap_loop_pos[of buf endp "unat cnt" pos2 ret pos3 ret'] Inr3 y by simp
                show ?thesis
                proof (cases "pos1 + unat sz \<noteq> pos3")
                  case T4: True
                  then show ?thesis
                    using less.prems Inr a False F Inr2 c F3 Inr3 y le
                    by (auto simp: name_subsections_lt[OF True])
                next
                  case F4: False
                  then have "name_subsections buf endp pos3 ret' = Inl (e, m)"
                    using less.prems Inr a False F Inr2 c F3 Inr3 y
                    by (simp add: name_subsections_lt[OF True])
                  moreover have "endp - pos3 < endp - pos" using p1 p2 p3 True by simp
                  ultimately have "ret' \<subseteq>\<^sub>m m \<and> e \<noteq> InvalidHeader" by (rule IH[rotated])
                  then show ?thesis using le by (auto intro: map_le_trans)
                qed
              qed
            qed
          qed
        qed
      qed
    qed
  qed
qed


lemma strip_sections_prefix:
  "strip_sections buf endp pos ret = Inl (e, r) \<Longrightarrow> prefix ret r \<and> e \<noteq> InvalidHeader"
proof (induction "endp - pos" arbitrary: pos ret rule: less_induct)
  case less
  show ?case
  proof (cases "pos < endp")
    case False
    then show ?thesis using less.prems by (simp add: strip_sections_ge)
  next
    case True
    note IH = less.hyps
    show ?thesis
    proof (cases "parseVarint buf endp (pos + 1) 0")
      case (Inl e1)
      then show ?thesis
        using less.prems parseVarint_error[OF Inl] by (auto simp: strip_sections_lt[OF True])
    next
      case (Inr a)
      obtain pos1 sz where a: "a = (pos1, sz)" by (cases a)
      have p1: "pos < pos1" using parseVarint_pos[of buf endp "pos + 1" 0 pos1 sz] Inr a by simp
      have dec: "endp - (pos1 + unat sz) < endp - pos" using p1 True by simp
      show ?thesis
      proof (cases "pos1 + unat sz > endp")
        case True2: True
        then show ?thesis
          using less.prems Inr a by (auto simp: strip_sections_lt[OF True])
      next
        case False
        show ?thesis
        proof (cases "buf ! pos = 0")
          case F: False
          define ret' where "ret' = (if ret \<noteq> []
              then ret @ take (pos1 + unat sz - pos) (drop pos buf) else ret)"
          have "strip_sections buf endp (pos1 + unat sz) ret' = Inl (e, r)"
            using less.prems Inr a False F by (simp add: strip_sections_lt[OF True] ret'_def)
          then have "prefix ret' r \<and> e \<noteq> InvalidHeader" using dec by (rule IH[rotated])
          moreover have "prefix ret ret'" by (simp add: ret'_def)
          ultimately show ?thesis by (auto intro: prefix_order.trans)
        next
          case T: True
          show ?thesis
          proof (cases "parseVarint buf endp pos1 0")
            case Inl2: (Inl e2)
            then show ?thesis
              using less.prems Inr a False T parseVarint_error[OF Inl2]
              by (auto simp: strip_sections_lt[OF True])
          next
            case Inr2: (Inr c)
            obtain pos2 nlen where c: "c = (pos2, nlen)" by (cases c)
            show ?thesis
            proof (cases "pos2 + unat nlen > endp")
              case T3: True
              then show ?thesis
                using less.prems Inr a False T Inr2 c
                by (auto simp: strip_sections_lt[OF True])
            next
              case F3: False
              define ret' where "ret' =
                (if find_sub precompiled (take (unat nlen) (drop pos2 buf)) \<and> ret = []
                 then ret @ take pos buf else ret)"
              have "strip_sections buf endp (pos1 + unat sz) ret' = Inl (e, r)"
                using less.prems Inr a False T Inr2 c F3
                by (simp add: strip_sections_lt[OF True] ret'_def)
              then have "prefix ret' r \<and> e \<noteq> InvalidHeader" using dec by (rule IH[rotated])
              moreover have "prefix ret ret'" by (simp add: ret'_def)
              ultimately show ?thesis by (auto intro: prefix_order.trans)
            qed
          qed
        qed
      qed
    qed
  qed
qed

lemma bad_names_run:
  "getFunctionNameIndex bad_names Map.empty = Inl (MalformedSection, [0 \<mapsto> str ''a''])"
  by (simp add: bad_names_def enc_simps run_simps)

lemma bad_strip_run:
  "getStrippedSource bad_strip [] = Inl (TruncatedInput, wasm_header)"
  by (simp add: bad_strip_def enc_simps run_simps)

subsection \<open>The output of a run from its events\<close>

text \<open>
  Whether a loop returns \<^verbatim>\<open>true\<close> or \<^verbatim>\<open>false\<close>, the mapping it leaves is the mapping it
  was given with the pairs of its events inserted in their order, and the buffer it leaves
  is the buffer it was given with the appends of its events.
\<close>

lemma inserts_append: "inserts (xs @ ys) = inserts xs @ inserts ys"
  by (induction xs rule: inserts.induct) simp_all

lemma insert_all_append: "insert_all m (ps @ qs) = insert_all (insert_all m ps) qs"
  by (induction ps arbitrary: m) auto

lemma namemap_loop_output:
  "namemap_loop_log buf endp n pos = (log, c) \<Longrightarrow>
   (case namemap_loop buf endp n pos ret of
      Inl (e, m) \<Rightarrow> c = None \<and> m = insert_all ret (inserts log)
    | Inr (p, m) \<Rightarrow> c = Some p \<and> m = insert_all ret (inserts log))"
proof (induction n arbitrary: pos ret log c)
  case 0
  then show ?case by auto
next
  case (Suc n)
  show ?case
  proof (cases "parseVarint buf endp pos 0")
    case (Inl e)
    then show ?thesis using Suc.prems by auto
  next
    case (Inr a)
    obtain pos1 func_index where a: "a = (pos1, func_index)" by (cases a)
    show ?thesis
    proof (cases "parseVarint buf endp pos1 0")
      case (Inl e)
      then show ?thesis using Suc.prems Inr a by auto
    next
      case Inr2: (Inr a2)
      obtain pos2 sz where a2: "a2 = (pos2, sz)" by (cases a2)
      show ?thesis
      proof (cases "pos2 + unat sz > endp")
        case True
        then show ?thesis using Suc.prems Inr a Inr2 a2 by auto
      next
        case False
        obtain log' c' where l: "namemap_loop_log buf endp n (pos2 + unat sz) = (log', c')"
          by (cases "namemap_loop_log buf endp n (pos2 + unat sz)")
        show ?thesis
          using Suc.prems Inr a Inr2 a2 False l
            Suc.IH[OF l, of "map_insert ret func_index (take (unat sz) (drop pos2 buf))"]
          by (auto split: sum.splits prod.splits)
      qed
    qed
  qed
qed

lemma name_subsections_output:
  "(case name_subsections buf endp pos ret of Inl (e, m) \<Rightarrow> m | Inr m \<Rightarrow> m)
     = insert_all ret (inserts (name_subsections_log buf endp pos))"
proof (induction "endp - pos" arbitrary: pos ret rule: less_induct)
  case less
  note [simp] = inserts_append insert_all_append
  show ?case
  proof (cases "pos < endp")
    case False
    then show ?thesis by (simp add: name_subsections_ge name_subsections_log_ge)
  next
    case True
    show ?thesis
    proof (cases "parseVarint buf endp (pos + 1) 0")
      case (Inl e)
      then show ?thesis using True by (simp add: name_subsections_lt name_subsections_log_lt)
    next
      case (Inr a)
      obtain pos1 size where a: "a = (pos1, size)" by (cases a)
      have p1: "pos + 1 < pos1" using parseVarint_pos[of buf endp "pos + 1" 0 pos1 size] Inr a by simp
      show ?thesis
      proof (cases "pos1 + unat size > endp")
        case True
        then show ?thesis using \<open>pos < endp\<close> Inr a by (simp add: name_subsections_lt name_subsections_log_lt)
      next
        case False
        note in_bounds = False
        show ?thesis
        proof (cases "buf ! pos \<noteq> 1")
          case True
          have "endp - (pos1 + unat size) < endp - pos" using p1 \<open>pos < endp\<close> by simp
          from less[OF this, of ret] show ?thesis
            using \<open>pos < endp\<close> Inr a in_bounds True by (simp add: name_subsections_lt name_subsections_log_lt)
        next
          case False
          show ?thesis
          proof (cases "parseVarint buf endp pos1 0")
            case (Inl e)
            then show ?thesis
              using \<open>pos < endp\<close> Inr a in_bounds False by (simp add: name_subsections_lt name_subsections_log_lt)
          next
            case Inr2: (Inr a2)
            obtain pos2 cnt where a2: "a2 = (pos2, cnt)" by (cases a2)
            have p2: "pos1 < pos2" using parseVarint_pos[of buf endp pos1 0 pos2 cnt] Inr2 a2 by simp
            show ?thesis
            proof (cases "pos2 + unat cnt > endp")
              case True
              then show ?thesis
                using \<open>pos < endp\<close> Inr a in_bounds False Inr2 a2
                by (simp add: name_subsections_lt name_subsections_log_lt)
            next
              case cnt_ok: False
              obtain log c where l: "namemap_loop_log buf endp (unat cnt) pos2 = (log, c)"
                by (cases "namemap_loop_log buf endp (unat cnt) pos2")
              note nl = namemap_loop_output[OF l, of ret]
              show ?thesis
              proof (cases "namemap_loop buf endp (unat cnt) pos2 ret")
                case (Inl x)
                then show ?thesis
                  using \<open>pos < endp\<close> Inr a in_bounds False Inr2 a2 cnt_ok l nl
                  by (auto simp add: name_subsections_lt name_subsections_log_lt split: prod.splits)
              next
                case Inr3: (Inr y)
                obtain pos3 ret' where y: "y = (pos3, ret')" by (cases y)
                have c: "c = Some pos3" and r: "ret' = insert_all ret (inserts log)"
                  using nl Inr3 y by auto
                have "pos2 \<le> pos3" using namemap_loop_pos[of buf endp "unat cnt" pos2 ret pos3 ret'] Inr3 y by simp
                then have "endp - pos3 < endp - pos" using p1 p2 \<open>pos < endp\<close> by simp
                from less[OF this, of ret'] show ?thesis
                  using \<open>pos < endp\<close> Inr a in_bounds False Inr2 a2 cnt_ok l Inr3 y c r
                  by (auto simp add: name_subsections_lt name_subsections_log_lt)
              qed
            qed
          qed
        qed
      qed
    qed
  qed
qed

lemma strip_sections_output:
  "(case strip_sections buf endp pos ret of Inl (e, r) \<Rightarrow> r | Inr r \<Rightarrow> r)
     = foldl (append_event buf) ret (strip_sections_log buf endp pos)"
proof (induction "endp - pos" arbitrary: pos ret rule: less_induct)
  case less
  show ?case
  proof (cases "pos < endp")
    case False
    then show ?thesis by (simp add: strip_sections_ge strip_sections_log_ge)
  next
    case True
    show ?thesis
    proof (cases "parseVarint buf endp (pos + 1) 0")
      case (Inl e)
      then show ?thesis using True by (simp add: strip_sections_lt strip_sections_log_lt)
    next
      case (Inr a)
      obtain pos1 len where a: "a = (pos1, len)" by (cases a)
      have p1: "pos + 1 < pos1" using parseVarint_pos[of buf endp "pos + 1" 0 pos1 len] Inr a by simp
      have "endp - (pos1 + unat len) < endp - pos" using p1 \<open>pos < endp\<close> by simp
      note IH = less[OF this]
      show ?thesis
      proof (cases "pos1 + unat len > endp")
        case True
        then show ?thesis using \<open>pos < endp\<close> Inr a by (simp add: strip_sections_lt strip_sections_log_lt)
      next
        case False
        note in_bounds = False
        show ?thesis
        proof (cases "buf ! pos = 0")
          case False
          show ?thesis
            using \<open>pos < endp\<close> Inr a in_bounds False
              IH[of "if ret \<noteq> [] then ret @ take (pos1 + unat len - pos) (drop pos buf) else ret"]
            by (simp add: strip_sections_lt strip_sections_log_lt)
        next
          case True
          show ?thesis
          proof (cases "parseVarint buf endp pos1 0")
            case (Inl e)
            then show ?thesis
              using \<open>pos < endp\<close> Inr a in_bounds True by (simp add: strip_sections_lt strip_sections_log_lt)
          next
            case Inr2: (Inr a2)
            obtain pos2 nlen where a2: "a2 = (pos2, nlen)" by (cases a2)
            show ?thesis
              using \<open>pos < endp\<close> Inr a in_bounds True Inr2 a2
                IH[of "if find_sub precompiled (take (unat nlen) (drop pos2 buf)) \<and> ret = []
                       then ret @ take pos buf else ret"]
              by (simp add: strip_sections_lt strip_sections_log_lt)
          qed
        qed
      qed
    qed
  qed
qed

lemma custom_sections_log_varints:
  "ev \<in> set (custom_sections_log buf endp name pos) \<Longrightarrow> \<exists>p e. ev = Varint p e"
proof (induction "endp - pos" arbitrary: pos rule: less_induct)
  case less
  show ?case
  proof (cases "pos < endp")
    case False
    then show ?thesis using less.prems by (simp add: custom_sections_log_ge)
  next
    case True
    show ?thesis
    proof (cases "parseVarint buf endp (pos + 1) 0")
      case (Inl e)
      then show ?thesis using less.prems True by (simp add: custom_sections_log_lt)
    next
      case (Inr a)
      obtain pos1 len where a: "a = (pos1, len)" by (cases a)
      have "endp - (pos1 + unat len) < endp - pos"
        using parseVarint_pos[of buf endp "pos + 1" 0 pos1 len] Inr a True by auto
      note IH = less.hyps[OF this]
      show ?thesis
      proof (cases "parseVarint buf endp pos1 0")
        case (Inl e)
        then show ?thesis
          using less.prems True Inr a IH by (auto simp add: custom_sections_log_lt split: if_splits)
      next
        case Inr2: (Inr a2)
        obtain pos2 nlen where a2: "a2 = (pos2, nlen)" by (cases a2)
        show ?thesis
          using less.prems True Inr a Inr2 a2 IH by (auto simp add: custom_sections_log_lt split: if_splits)
      qed
    qed
  qed
qed

lemma inserts_varints:
  "(\<And>ev. ev \<in> set log \<Longrightarrow> \<exists>p e. ev = Varint p e) \<Longrightarrow> inserts log = []"
proof (induction log)
  case Nil
  then show ?case by simp
next
  case (Cons a log)
  obtain p e where "a = Varint p e" using Cons.prems[of a] by auto
  then show ?case using Cons by simp
qed

lemma getFunctionNameIndex_output:
  "(case getFunctionNameIndex b m0 of Inl (e, m) \<Rightarrow> m | Inr m \<Rightarrow> m)
     = insert_all m0 (inserts (getFunctionNameIndex_log b))"
proof -
  have c: "inserts (getCustomSection_log b (str ''name'')) = []"
    using custom_sections_log_varints[of _ b "length b" "str ''name''" 8]
    by (intro inserts_varints) (simp add: getCustomSection_log_def split: if_splits)
  show ?thesis
  proof (cases "getCustomSection b (str ''name'') (0, 0)")
    case (Inl x)
    then show ?thesis
      using c by (cases x) (simp add: getFunctionNameIndex_def getFunctionNameIndex_log_def inserts_append)
  next
    case (Inr v)
    then show ?thesis
      using c name_subsections_output[of b "snd v" "fst v" m0]
      by (simp add: getFunctionNameIndex_def getFunctionNameIndex_log_def inserts_append)
  qed
qed

lemma getStrippedSource_output:
  "getStrippedSource b r0 = Inl (e, r) \<Longrightarrow> r = foldl (append_event b) r0 (getStrippedSource_log b)"
  using strip_sections_output[of b "length b" 8 r0]
  by (auto simp add: getStrippedSource_def getStrippedSource_log_def split: sum.splits prod.splits if_splits)

lemma foldl_append_event_empty:
  "\<forall>p. Precompiled p \<notin> set log \<Longrightarrow> foldl (append_event buf) [] log = []"
proof (induction log)
  case Nil
  then show ?case by simp
next
  case (Cons ev log)
  then show ?case by (cases ev) auto
qed

lemma foldl_append_event_same:
  "\<forall>p. Precompiled p \<notin> set log \<Longrightarrow> \<forall>s t. Noncustom s t \<notin> set log \<Longrightarrow>
   foldl (append_event buf) r log = r"
proof (induction log)
  case Nil
  then show ?case by simp
next
  case (Cons ev log)
  then show ?case by (cases ev) auto
qed

subsection \<open>Reads of at most five bytes\<close>

text \<open>
  A call of \<^verbatim>\<open>parseVarint\<close> that reads at most five bytes returns the same result whatever
  a shift by 32 or more yields.
\<close>

lemma reads_within_any_shift:
  "reads_within buf endp k pos \<Longrightarrow> unat shift + 7 * k \<le> 35 \<Longrightarrow>
   parseVarint_loop_w w buf endp shift pos ret = parseVarint_loop buf endp shift pos ret"
proof (induction k arbitrary: shift pos ret)
  case 0
  then show ?case
    by (subst parseVarint_loop_w.simps, subst parseVarint_loop.simps) simp
next
  case (Suc k)
  have s: "unat shift < 32" using Suc.prems(2) by simp
  have s7: "unat (shift + 7) = unat shift + 7"
    using s by (simp add: unat_word_ariths)
  show ?case
  proof (cases "pos + 1 > endp \<or> buf ! pos AND 0x80 = 0")
    case True
    then show ?thesis
      using s by (subst parseVarint_loop_w.simps, subst parseVarint_loop.simps) (auto simp: Let_def)
  next
    case False
    then have r: "reads_within buf endp k (pos + 1)" using Suc.prems(1) by simp
    have "parseVarint_loop_w w buf endp (shift + 7) (pos + 1) r' = parseVarint_loop buf endp (shift + 7) (pos + 1) r'" for r'
      using Suc.prems(2) s7 by (intro Suc.IH[OF r]) simp
    then show ?thesis
      using s False by (subst parseVarint_loop_w.simps, subst parseVarint_loop.simps) (auto simp: Let_def)
  qed
qed


lemma defined_read_any_shift:
  "reads_within buf endp 5 pos \<Longrightarrow>
   parseVarint_loop_w w buf endp 0 pos ret = parseVarint buf endp pos ret"
  using reads_within_any_shift[of buf endp 5 pos 0 w ret] by (simp add: parseVarint_def)

subsection \<open>The loops of getAbiVersion\<close>

lemma length_enc_export:
  "length (enc_export (name, kind, index)) =
     length (leb128 (length name)) + length name + 1 + length (leb128 (unat index))"
  by simp

lemma export_loop_export:
  assumes len: "length name < 2 ^ 32 - 1"
    and endp: "length pre + length (enc_export (name, kind, index)) \<le> endp"
  shows "export_loop (pre @ enc_export (name, kind, index) @ post) endp (Suc k) (length pre) =
     (case abi_of (name, kind, index) of
        Some v \<Rightarrow> Inr v
      | None \<Rightarrow>
          if skip_ok (name, kind, index)
          then export_loop (pre @ enc_export (name, kind, index) @ post) endp k
                 (length pre + length (enc_export (name, kind, index)))
          else Inl VarintOverflow)"
proof -
  define buf where "buf = pre @ enc_export (name, kind, index) @ post"
  define pos1 where "pos1 = length pre + length (leb128 (length name))"
  define pos2 where "pos2 = pos1 + length name"
  define pos4 where "pos4 = Suc pos2 + length (leb128 (unat index))"
  have b1: "buf = pre @ leb128 (length name) @ (name @ [kind] @ leb128 (unat index) @ post)"
    by (simp add: buf_def)
  have b2: "buf = (pre @ leb128 (length name)) @ name @ ([kind] @ leb128 (unat index) @ post)"
    by (simp add: buf_def)
  have b3: "buf = (pre @ leb128 (length name) @ name) @ kind # (leb128 (unat index) @ post)"
    by (simp add: buf_def)
  have b4: "buf = (pre @ leb128 (length name) @ name @ [kind]) @ leb128 (unat index) @ post"
    by (simp add: buf_def)
  have e: "pos4 = length pre + length (enc_export (name, kind, index))"
    by (simp add: pos4_def pos2_def pos1_def)
  have v1: "parseVarint buf endp (length pre) 0 = Inr (pos1, of_nat (length name))"
    using len endp parseVarint_at[OF b1 refl, of endp] by (simp add: pos1_def)
  have u: "unat (of_nat (length name) :: u32) = length name"
    using len by (simp add: unat_of_nat_u32)
  have "take (length name) (drop (length (pre @ leb128 (length name))) buf) = name"
    unfolding b2 by (rule take_drop_middle)
  then have tk: "take (length name) (drop pos1 buf) = name"
    by (simp add: pos1_def)
  have "buf ! length (pre @ leb128 (length name) @ name) = kind"
    unfolding b3 by (rule nth_append_length)
  then have k: "buf ! pos2 = kind"
    by (simp add: pos2_def pos1_def add.assoc)
  have i: "unat index < 2 ^ 32" using unsigned_less[of index] by simp
  have "parseVarint ((pre @ leb128 (length name) @ name @ [kind]) @ leb128 (unat index) @ post) endp
          (length (pre @ leb128 (length name) @ name @ [kind])) (of_nat (length name)) =
     (if of_nat (length name) + of_nat (unat index) \<noteq> (- 1 :: u32)
      then Inr (length (pre @ leb128 (length name) @ name @ [kind]) + length (leb128 (unat index)),
                of_nat (length name) + of_nat (unat index))
      else Inl VarintOverflow)"
    using endp by (intro parseVarint_leb128_acc[OF i]) simp
  then have v2: "parseVarint buf endp (Suc pos2) (of_nat (length name)) =
     (if skip_ok (name, kind, index) then Inr (pos4, of_nat (length name) + index)
      else Inl VarintOverflow)"
    by (simp add: b4 pos4_def pos2_def pos1_def add.assoc)
  have le1: "pos1 + length name \<le> endp" "pos2 + 1 \<le> endp"
    using endp by (simp_all add: pos2_def pos1_def)
  show ?thesis
    unfolding buf_def[symmetric] e[symmetric]
    using le1
    by (simp add: v1 u tk k v2 pos2_def[symmetric] Let_def del: enc_export.simps skip_ok.simps)
qed


lemma export_loop_enc:
  assumes "\<forall>(name, kind, index) \<in> set es. length name < 2 ^ 32 - 1"
    and "\<forall>e \<in> set (takeWhile (\<lambda>e. abi_of e = None) es). skip_ok e"
    and "length pre + length (concat (map enc_export es)) \<le> endp"
  shows "export_loop (pre @ concat (map enc_export es) @ post) endp (length es) (length pre)
           = Inr (abi_scan es)"
  using assms
proof (induction es arbitrary: pre)
  case Nil
  then show ?case by simp
next
  case (Cons e es)
  obtain name kind index where e: "e = (name, kind, index)" by (cases e)
  have len: "length name < 2 ^ 32 - 1" using Cons.prems(1) e by simp
  have le: "length pre + length (enc_export (name, kind, index)) \<le> endp"
    using Cons.prems(3) e by simp
  note step = export_loop_export[OF len le, of "concat (map enc_export es) @ post" "length es"]
  show ?case
  proof (cases "abi_of (name, kind, index)")
    case (Some v)
    then show ?thesis using step by (simp add: e del: enc_export.simps abi_of.simps)
  next
    case None
    then have ok: "skip_ok (name, kind, index)" and
      rest_ok: "\<forall>e \<in> set (takeWhile (\<lambda>e. abi_of e = None) es). skip_ok e"
      using Cons.prems(2) e by simp_all
    have rest: "export_loop ((pre @ enc_export (name, kind, index)) @ concat (map enc_export es) @ post)
          endp (length es) (length (pre @ enc_export (name, kind, index))) = Inr (abi_scan es)"
      using Cons.prems(1,3) rest_ok e by (intro Cons.IH) simp_all
    show ?thesis
      using step rest None ok
      by (simp add: e del: enc_export.simps abi_of.simps skip_ok.simps)
  qed
qed

lemma length_exports_le: "length es \<le> length (concat (map enc_export es))"
proof (induction es)
  case Nil
  then show ?case by simp
next
  case (Cons e es)
  obtain name kind index where e: "e = (name, kind, index)" by (cases e)
  have "1 \<le> length (enc_export e)" by (simp add: e)
  moreover have "length (concat (map enc_export (e # es))) =
      length (enc_export e) + length (concat (map enc_export es))"
    by simp
  ultimately show ?case using Cons by simp
qed

lemma length_export_payload:
  "length (export_payload es) = length (leb128 (length es)) + length (concat (map enc_export es))"
  by (simp add: export_payload_def)

lemma export_name_lengths:
  "length (concat (map enc_export es)) < n \<Longrightarrow> \<forall>(name, kind, index) \<in> set es. length name < n"
  by (induction es) auto

lemma abi_sections_other:
  assumes ty: "ty \<noteq> 7" and len: "length payload < 2 ^ 32 - 1"
    and endp: "length pre + length (enc_section ty payload) \<le> endp"
  shows "abi_sections (pre @ enc_section ty payload @ post) endp (length pre) =
         abi_sections (pre @ enc_section ty payload @ post) endp
           (length pre + length (enc_section ty payload))"
proof -
  define buf where "buf = pre @ enc_section ty payload @ post"
  define pos1 where "pos1 = Suc (length pre + length (leb128 (length payload)))"
  note h = enc_section_head[OF len endp buf_def pos1_def]
  show ?thesis
    unfolding buf_def[symmetric]
    using endp ty
    by (subst abi_sections_lt[OF h(5)]) (simp add: h(1-4))
qed

lemma abi_sections_skip:
  assumes "\<forall>s \<in> set secs. wf_section s \<and> sec_type s \<noteq> 7"
    and "length pre + length (enc_sections secs) \<le> endp"
  shows "abi_sections (pre @ enc_sections secs @ post) endp (length pre) =
         abi_sections (pre @ enc_sections secs @ post) endp (length pre + length (enc_sections secs))"
  using assms
proof (induction secs arbitrary: pre)
  case Nil
  then show ?case by (simp add: enc_sections_Nil)
next
  case (Cons s secs)
  define payload where "payload =
    (case s of Custom name data \<Rightarrow> custom_payload name data | Plain ty payload \<Rightarrow> payload)"
  have es: "enc s = enc_section (sec_type s) payload"
    unfolding payload_def by (rule enc_as_section)
  have ty: "sec_type s \<noteq> 7" using Cons.prems(1) by simp
  have len: "length payload < 2 ^ 32 - 1"
    using Cons.prems(1) by (cases s) (simp_all add: payload_def)
  have le: "length pre + length (enc_section (sec_type s) payload) \<le> endp"
    using Cons.prems(2) by (simp add: enc_sections_Cons es)
  have step: "abi_sections (pre @ enc s @ (enc_sections secs @ post)) endp (length pre) =
      abi_sections (pre @ enc s @ (enc_sections secs @ post)) endp (length pre + length (enc s))"
    unfolding es by (rule abi_sections_other[OF ty len le])
  have rest: "abi_sections ((pre @ enc s) @ enc_sections secs @ post) endp (length (pre @ enc s)) =
      abi_sections ((pre @ enc s) @ enc_sections secs @ post) endp
        (length (pre @ enc s) + length (enc_sections secs))"
    using Cons.prems by (intro Cons.IH) (simp_all add: enc_sections_Cons)
  show ?case
    using step rest by (simp add: enc_sections_Cons add.assoc)
qed

lemma abi_sections_export:
  assumes len: "length (export_payload es) < 2 ^ 32 - 1"
    and ok: "\<forall>e \<in> set (takeWhile (\<lambda>e. abi_of e = None) es). skip_ok e"
    and endp: "length pre + length (export_section es) \<le> endp"
  shows "abi_sections (pre @ export_section es @ post) endp (length pre) = Inr (abi_scan es)"
proof -
  define buf where "buf = pre @ enc_section 7 (export_payload es) @ post"
  define pos1 where "pos1 = Suc (length pre + length (leb128 (length (export_payload es))))"
  define pos2 where "pos2 = pos1 + length (leb128 (length es))"
  define body where "body = concat (map enc_export es)"
  have endp': "length pre + length (enc_section 7 (export_payload es)) \<le> endp"
    using endp by (simp add: export_section_def)
  note h = enc_section_head[OF len endp' buf_def pos1_def]
  have b2: "buf = (pre @ [7] @ leb128 (length (export_payload es))) @ leb128 (length es) @ (body @ post)"
    by (simp add: buf_def enc_section_def export_payload_def body_def)
  have b3: "buf = (pre @ [7] @ leb128 (length (export_payload es)) @ leb128 (length es)) @ body @ post"
    by (simp add: buf_def enc_section_def export_payload_def body_def)
  have lb: "length body < 2 ^ 32 - 1"
    using len by (simp add: length_export_payload body_def)
  have cnt: "length es < 2 ^ 32 - 1"
    using lb length_exports_le[of es] by (simp add: body_def)
  have fit: "pos2 + length body \<le> endp"
    using h(3) endp' by (simp add: pos2_def length_export_payload body_def)
  have v2: "parseVarint buf endp pos1 0 = Inr (pos2, of_nat (length es))"
    using cnt fit parseVarint_at[OF b2, of pos1 endp]
    by (simp add: pos1_def pos2_def)
  have u2: "unat (of_nat (length es) :: u32) = length es"
    using cnt by (simp add: unat_of_nat_u32)
  have le2: "pos2 + length es \<le> endp"
    using fit length_exports_le[of es] by (simp add: body_def)
  have names: "\<forall>(name, kind, index) \<in> set es. length name < 2 ^ 32 - 1"
    using lb unfolding body_def by (rule export_name_lengths)
  have "export_loop ((pre @ [7] @ leb128 (length (export_payload es)) @ leb128 (length es))
            @ concat (map enc_export es) @ post) endp (length es)
          (length (pre @ [7] @ leb128 (length (export_payload es)) @ leb128 (length es)))
        = Inr (abi_scan es)"
    using fit by (intro export_loop_enc[OF names ok]) (simp add: pos2_def pos1_def body_def add.assoc)
  then have el: "export_loop buf endp (length es) pos2 = Inr (abi_scan es)"
    by (simp add: b3 body_def pos2_def pos1_def add.assoc)
  have "abi_sections buf endp (length pre) = Inr (abi_scan es)"
    using endp' le2
    by (subst abi_sections_lt[OF h(5)]) (simp add: h(1-4) v2 u2 el)
  then show ?thesis by (simp add: buf_def export_section_def)
qed


lemma abi_scan_append_none:
  "\<forall>e \<in> set xs. abi_of e = None \<Longrightarrow> abi_scan (xs @ ys) = abi_scan ys"
  by (induction xs) auto

lemma abi_scan_none: "\<forall>e \<in> set es. abi_of e = None \<Longrightarrow> abi_scan es = Unknown"
  by (induction es) auto

lemma abi_of_0_2_1: "abi_of (abi_0_2_1, 0, idx) = Some ProxyWasm_0_2_1"
  by (simp add: abi_0_1_0_def abi_0_2_0_def abi_0_2_1_def str_def)

section \<open>Claims about the header check and the varint decoder\<close>

text \<open>The header check on every buffer: what passes and what is refused.\<close>

lemma short_buffer_accepted:
  assumes "length b < 8"
  shows "checkWasmHeader b" and "getAbiVersion b = Inr Unknown"
    and "getCustomSection b name v = Inr v" and "getFunctionNameIndex b m = Inr m"
    and "getStrippedSource b r = Inr (if r = [] then b else r)"
  using assms
  by (simp_all add: checkWasmHeader_def getAbiVersion_def getCustomSection_def
      getFunctionNameIndex_def getStrippedSource_def abi_sections_ge custom_sections_ge
      strip_sections_ge)

lemma wrong_magic_rejected:
  assumes "8 \<le> length b" and "take 4 b \<noteq> wasm_magic_number"
  shows "\<not> checkWasmHeader b" and "getAbiVersion b = Inl (InvalidHeader, Unknown)"
    and "getCustomSection b name v = Inl (InvalidHeader, v)"
    and "getFunctionNameIndex b m = Inl (InvalidHeader, m)"
    and "getStrippedSource b r = Inl (InvalidHeader, r)"
  using assms
  by (simp_all add: checkWasmHeader_def getAbiVersion_def getCustomSection_def
      getFunctionNameIndex_def getStrippedSource_def)

text \<open>
  C1 (the code departs from the claim). The claim: the header check holds exactly when
  the buffer has at least 8 bytes and starts with the magic number, and every scanning
  operation reports \<open>InvalidHeader\<close> on a buffer that is shorter than 8 bytes or has a
  wrong magic number. The code: \<^verbatim>\<open>checkWasmHeader\<close> returns
  \<^verbatim>\<open>bytecode.size() < 8 || !memcmp(...)\<close>, so it holds for every buffer shorter than 8
  bytes. On the 4-byte buffer \<open>01 02 03 04\<close>, which is too short and has a wrong magic
  number, the header check holds, the loops of the four operations start at offset 8,
  past the end, and do not run, and each operation returns \<^verbatim>\<open>true\<close>.
\<close>

theorem short_buffer_passes_header_check:
  "checkWasmHeader [0x01, 0x02, 0x03, 0x04]
   \<and> getAbiVersion [0x01, 0x02, 0x03, 0x04] = Inr Unknown
   \<and> getCustomSection [0x01, 0x02, 0x03, 0x04] (str ''name'') (0, 0) = Inr (0, 0)
   \<and> getFunctionNameIndex [0x01, 0x02, 0x03, 0x04] Map.empty = Inr Map.empty
   \<and> getStrippedSource [0x01, 0x02, 0x03, 0x04] [] = Inr [0x01, 0x02, 0x03, 0x04]"
  by (simp add: run_simps)

text \<open>
  C4, as stated, fails at one value: the encoding of \<open>0xffffffff\<close> is refused, because
  \<^verbatim>\<open>parseVarint\<close> returns \<^verbatim>\<open>ret != static_cast<uint32_t>(-1)\<close>.
\<close>

theorem varint_sentinel_counterexample:
  "leb128 (unat (0xffffffff :: u32)) = [0xff, 0xff, 0xff, 0xff, 0x0f]
   \<and> parseVarint [0xff, 0xff, 0xff, 0xff, 0x0f] 5 0 0 = Inl VarintOverflow"
  by (simp add: leb128.simps run_simps)

text \<open>
  C4, amended: for every \<open>u32\<close> value \<open>v\<close> other than \<open>0xffffffff\<close>, decoding the
  standard LEB128 encoding of \<open>v\<close> (anywhere in a buffer, from an accumulator that is 0)
  returns \<open>v\<close> and the offset after the encoding, and the encoding of \<open>0xffffffff\<close> is
  refused; and when every byte from the cursor to the end has its continuation bit set,
  decoding fails at the read past the end.
\<close>

theorem varint_roundtrip:
  fixes v :: u32
  shows "(length pre + length (leb128 (unat v)) \<le> endp \<longrightarrow>
            parseVarint (pre @ leb128 (unat v) @ post) endp (length pre) 0
              = (if v \<noteq> - 1 then Inr (length pre + length (leb128 (unat v)), v)
                 else Inl VarintOverflow))
       \<and> ((\<forall>i. pos \<le> i \<and> i < endp' \<longrightarrow> buf ! i AND 0x80 \<noteq> 0) \<longrightarrow>
            parseVarint buf endp' pos ret = Inl TruncatedInput)"
proof (intro conjI impI)
  assume a: "length pre + length (leb128 (unat v)) \<le> endp"
  have "unat v < 2 ^ 32" using unsigned_less[of v] by simp
  then show "parseVarint (pre @ leb128 (unat v) @ post) endp (length pre) 0
      = (if v \<noteq> - 1 then Inr (length pre + length (leb128 (unat v)), v) else Inl VarintOverflow)"
    using a by (subst parseVarint_leb128_acc) simp_all
next
  assume "\<forall>i. pos \<le> i \<and> i < endp' \<longrightarrow> buf ! i AND 0x80 \<noteq> 0"
  then show "parseVarint buf endp' pos ret = Inl TruncatedInput"
    unfolding parseVarint_def by (intro parseVarint_loop_all_continue) simp
qed

theorem varint_roundtrip_witness:
  "leb128 (unat (300 :: u32)) = [0xac, 0x02]
   \<and> parseVarint [0xac, 0x02] 2 0 0 = Inr (2, 300)
   \<and> parseVarint [0x80, 0xff, 0x81] 3 0 0 = Inl TruncatedInput"
proof -
  have l: "leb128 (unat (300 :: u32)) = [0xac, 0x02]" by (simp add: leb128.simps)
  have "\<forall>i. 0 \<le> i \<and> i < 3 \<longrightarrow> [0x80, 0xff, 0x81 :: byte] ! i AND 0x80 \<noteq> 0"
    by (simp add: less_Suc_eq numeral_3_eq_3 nth_Cons')
  then show ?thesis
    using varint_roundtrip[of "[]" 300 2 "[]" 0 3 "[0x80, 0xff, 0x81]" 0] l
    by simp
qed


text \<open>
  C5 (the code departs from the claim). The claim: the decoder refuses every encoding
  of more than 5 bytes, so that it never shifts by 32 or more. The code has no bound on
  \<^verbatim>\<open>shift\<close>: on the six bytes \<open>80 80 80 80 80 00\<close> it reads all six, the sixth with
  \<^verbatim>\<open>shift = 35\<close>, and returns \<^verbatim>\<open>true\<close> with the value 0 and the cursor after the
  sixth byte. All the bytes read have zero data bits, so the value does not depend on
  what a shift by 35 yields.
\<close>

theorem six_byte_varint_accepted:
  "parseVarint [0x80, 0x80, 0x80, 0x80, 0x80, 0x00] 6 0 0 = Inr (6, 0)"
  by (simp add: run_simps)

section \<open>Claims about getStrippedSource\<close>

text \<open>
  C7: on a module made of a valid header, a section that is not custom, a custom section
  whose name contains \<open>precompiled_\<close> and another section that is not custom, with an
  output buffer that is empty on entry, getStrippedSource returns the header, the first
  section and the last section: the bytes before the precompiled section verbatim, then
  the later section verbatim. The section lengths are those the decoder accepts (below
  \<open>2 ^ 32 - 1\<close>). The claim's module is the instance with types 1 and 10 and the name
  \<open>precompiled_cranelift\<close>.
\<close>

theorem strip_removes_precompiled_section:
  assumes "valid_header h"
    and "t1 \<noteq> 0" and "length p1 < 2 ^ 32 - 1"
    and "find_sub precompiled name" and "length (custom_payload name d) < 2 ^ 32 - 1"
    and "t2 \<noteq> 0" and "length p2 < 2 ^ 32 - 1"
  shows "getStrippedSource (h @ enc_section t1 p1 @ custom_section name d @ enc_section t2 p2) []
           = Inr (h @ enc_section t1 p1 @ enc_section t2 p2)"
proof -
  define s1 where "s1 = enc_section t1 p1"
  define s2 where "s2 = custom_section name d"
  define s3 where "s3 = enc_section t2 p2"
  define buf where "buf = h @ s1 @ s2 @ s3"
  define endp where "endp = length buf"
  have h8: "length h = 8" using assms(1) by (simp add: valid_header_def)
  have hne: "h \<noteq> []" using h8 by auto
  have 1: "strip_sections buf endp (length h) [] = strip_sections buf endp (length h + length s1) []"
    unfolding buf_def s1_def
    using strip_sections_plain[OF assms(2,3), of h endp "s2 @ s3" "[]"]
    by (simp add: endp_def buf_def s1_def)
  have 2: "strip_sections buf endp (length (h @ s1)) [] =
           strip_sections buf endp (length (h @ s1) + length s2) (h @ s1)"
    using strip_sections_custom[OF assms(5), of "h @ s1" endp s3 "[]"] assms(4)
    by (simp add: endp_def buf_def s2_def)
  have 3: "strip_sections buf endp (length (h @ s1 @ s2)) (h @ s1) =
           strip_sections buf endp (length (h @ s1 @ s2) + length s3) ((h @ s1) @ s3)"
    using strip_sections_plain[OF assms(6,7), of "h @ s1 @ s2" endp "[]" "h @ s1"] hne
    by (simp add: endp_def buf_def s3_def)
  have "strip_sections buf endp 8 [] = Inr (h @ s1 @ s3)"
    using 1 2 3 by (simp add: h8 add.assoc strip_sections_ge endp_def buf_def)
  moreover have "checkWasmHeader buf"
    unfolding buf_def by (rule checkWasmHeader_valid[OF assms(1)])
  ultimately show ?thesis
    using hne by (simp add: getStrippedSource_def buf_def endp_def s1_def s2_def s3_def)
qed

theorem strip_removes_precompiled_section_witness:
  "valid_header wasm_header
   \<and> find_sub precompiled (str ''precompiled_cranelift'')
   \<and> getStrippedSource
       (wasm_header @ enc_section 1 [0x01, 0x60, 0x00, 0x00]
          @ custom_section (str ''precompiled_cranelift'') [0xde, 0xad]
          @ enc_section 10 [0x01, 0x02, 0x00, 0x0b]) []
     = Inr (wasm_header @ enc_section 1 [0x01, 0x60, 0x00, 0x00]
              @ enc_section 10 [0x01, 0x02, 0x00, 0x0b])"
proof -
  have v: "valid_header wasm_header"
    by (simp add: valid_header_def wasm_header_def wasm_magic_number_def)
  have f: "find_sub precompiled (str ''precompiled_cranelift'')"
    by (simp add: precompiled_def str_def)
  have l: "length (custom_payload (str ''precompiled_cranelift'') [0xde, 0xad]) < 2 ^ 32 - 1"
    by (simp add: custom_payload_def str_def leb128.simps)
  show ?thesis
    using strip_removes_precompiled_section[OF v _ _ f l,
        of 1 "[0x01, 0x60, 0x00, 0x00]" 10 "[0x01, 0x02, 0x00, 0x0b]"] v f
    by simp
qed

text \<open>
  C8: on a module made of a valid header and well-formed sections none of which is a
  custom section with \<open>precompiled_\<close> in its name, with an output buffer that is empty on
  entry, getStrippedSource returns a copy of the whole input; so its output is again
  such a module, and a second application returns the same bytes.
\<close>

theorem strip_without_precompiled_is_copy:
  assumes "valid_header h" and "\<forall>s \<in> set secs. wf_section s \<and> \<not> is_precompiled s"
  shows "getStrippedSource (h @ enc_sections secs) [] = Inr (h @ enc_sections secs)
       \<and> (\<forall>out. getStrippedSource (h @ enc_sections secs) [] = Inr out \<longrightarrow>
             getStrippedSource out [] = Inr out)"
proof -
  have h8: "length h = 8" using assms(1) by (simp add: valid_header_def)
  have "strip_sections (h @ enc_sections secs @ []) (length (h @ enc_sections secs)) (length h) [] =
      strip_sections (h @ enc_sections secs @ []) (length (h @ enc_sections secs))
        (length h + length (enc_sections secs)) []"
    using assms(2) by (intro strip_sections_no_precompiled) simp_all
  then have "strip_sections (h @ enc_sections secs) (length (h @ enc_sections secs)) 8 [] = Inr []"
    by (simp add: h8 strip_sections_ge)
  then have "getStrippedSource (h @ enc_sections secs) [] = Inr (h @ enc_sections secs)"
    using checkWasmHeader_valid[OF assms(1)] by (simp add: getStrippedSource_def)
  then show ?thesis by simp
qed

theorem strip_without_precompiled_is_copy_witness:
  "valid_header wasm_header
   \<and> wf_section (Plain 1 [0x01, 0x60, 0x00, 0x00]) \<and> \<not> is_precompiled (Plain 1 [0x01, 0x60, 0x00, 0x00])
   \<and> wf_section (Custom (str ''producers'') [0x00]) \<and> \<not> is_precompiled (Custom (str ''producers'') [0x00])
   \<and> getStrippedSource
        (wasm_header @ enc_sections [Plain 1 [0x01, 0x60, 0x00, 0x00], Custom (str ''producers'') [0x00]]) []
      = Inr (wasm_header @ enc_sections [Plain 1 [0x01, 0x60, 0x00, 0x00], Custom (str ''producers'') [0x00]])"
proof -
  have v: "valid_header wasm_header"
    by (simp add: valid_header_def wasm_header_def wasm_magic_number_def)
  have w: "\<forall>s \<in> set [Plain 1 [0x01, 0x60, 0x00, 0x00], Custom (str ''producers'') [0x00]].
             wf_section s \<and> \<not> is_precompiled s"
    by (simp add: custom_payload_def str_def leb128.simps precompiled_def)
  show ?thesis
    using strip_without_precompiled_is_copy[OF v w] v w by simp
qed

section \<open>Claims about getFunctionNameIndex and getCustomSection\<close>

text \<open>
  C3, as stated, fails: with the pairs \<open>(0, a)\<close> and \<open>(0, b)\<close> in the function name
  subsection the returned mapping holds \<open>a\<close> for index 0, the name of the earlier pair.
  \<^verbatim>\<open>ret.insert\<close> does not replace an entry that is present.
\<close>

theorem duplicate_index_counterexample:
  "getFunctionNameIndex
     (wasm_header @ custom_section (str ''name'')
        (enc_subsection 1 (namemap [(0, str ''a''), (0, str ''b'')]))) Map.empty
   = Inr [0 \<mapsto> str ''a'']
   \<and> [0 \<mapsto> str ''a''] (0 :: u32) \<noteq> Some (str ''b'')"
  by (simp add: enc_simps run_simps)

text \<open>
  C3, amended: the first pair wins. On a module with a valid header, well-formed
  sections before the name section, and a name section whose subsections are any
  subsections with ids other than 1, one function name subsection with well-formed
  pairs \<open>ps\<close>, and again subsections with ids other than 1, getFunctionNameIndex returns
  the entries the mapping held on entry together with, for every other index, the name
  of the first pair of \<open>ps\<close> with that index (\<open>map_of\<close> takes the first pair with a
  key; \<open>++\<close> lets the entries of \<open>m\<close> stand). So when two pairs share an index that is
  not in the mapping on entry, the name of the earlier pair is returned.
\<close>

theorem first_pair_wins:
  assumes "valid_header h"
    and "\<forall>s \<in> set secs. wf_section s \<and> \<not> is_named (str ''name'') s"
    and "\<forall>(sid, body) \<in> set before. sid \<noteq> 1 \<and> length body < 2 ^ 32 - 1"
    and "\<forall>(sid, body) \<in> set after. sid \<noteq> 1 \<and> length body < 2 ^ 32 - 1"
    and "\<forall>p \<in> set ps. wf_pair p"
    and "P = enc_subsections before @ enc_subsection 1 (namemap ps) @ enc_subsections after"
    and "length (custom_payload (str ''name'') P) < 2 ^ 32 - 1"
  shows "getFunctionNameIndex (h @ enc_sections secs @ custom_section (str ''name'') P @ tail) m
           = Inr (map_of ps ++ m)
       \<and> (\<forall>i a xs ys. ps = xs @ (i, a) # ys \<and> i \<notin> fst ` set xs \<and> m i = None \<longrightarrow>
             (map_of ps ++ m) i = Some a)"
proof -
  define pre where "pre = h @ enc_sections secs @ [0] @ leb128 (length (custom_payload (str ''name'') P))
                @ leb128 (length (str ''name'')) @ str ''name''"
  note g = getFunctionNameIndex_name_section[OF assms(1,2,7) pre_def]
  have ne: "P \<noteq> []" by (simp add: assms(6) enc_subsection_def)
  have len: "length (namemap ps) < 2 ^ 32 - 1"
    using assms(7) by (simp add: assms(6) length_custom_payload length_enc_subsection)
  have "name_subsections (pre @ P @ tail) (length pre + length P) (length pre) m = Inr (insert_all m ps)"
    by (rule name_subsections_well_formed[OF assms(3,4,5) len assms(6) refl])
  then have 1: "getFunctionNameIndex (h @ enc_sections secs @ custom_section (str ''name'') P @ tail) m
           = Inr (map_of ps ++ m)"
    using ne by (simp add: g insert_all_eq)
  have 2: "(map_of ps ++ m) i = Some a" if "ps = xs @ (i, a) # ys" "i \<notin> fst ` set xs" "m i = None"
    for i a xs ys
    using that map_of_first[of i xs a ys] by (simp add: map_add_def)
  show ?thesis using 1 2 by blast
qed


theorem first_pair_wins_witness:
  "valid_header wasm_header
   \<and> wf_section (Plain 1 [0x01, 0x60, 0x00, 0x00]) \<and> \<not> is_named (str ''name'') (Plain 1 [0x01, 0x60, 0x00, 0x00])
   \<and> wf_pair (0, str ''a'') \<and> wf_pair (0, str ''b'')
   \<and> getFunctionNameIndex
        (wasm_header @ enc_sections [Plain 1 [0x01, 0x60, 0x00, 0x00]]
           @ custom_section (str ''name'')
               (enc_subsections [(0, [0x01, 0x6d])]
                  @ enc_subsection 1 (namemap [(0, str ''a''), (0, str ''b'')])
                  @ enc_subsections [(2, [0x00])])) Map.empty
      = Inr (map_of [(0, str ''a''), (0, str ''b'')])
   \<and> map_of [(0 :: u32, str ''a''), (0, str ''b'')] 0 = Some (str ''a'')"
proof -
  define ps :: "(u32 \<times> bytes) list" where "ps = [(0, str ''a''), (0, str ''b'')]"
  define P where "P = enc_subsections [(0, [0x01, 0x6d])] @ enc_subsection 1 (namemap ps)
                        @ enc_subsections [(2, [0x00])]"
  have s: "\<forall>s \<in> set [Plain 1 [0x01, 0x60, 0x00, 0x00]]. wf_section s \<and> \<not> is_named (str ''name'') s"
    by simp
  have b: "\<forall>(sid, body) \<in> set [(0 :: byte, [0x01, 0x6d :: byte])]. sid \<noteq> 1 \<and> length body < 2 ^ 32 - 1"
    by simp
  have a: "\<forall>(sid, body) \<in> set [(2 :: byte, [0x00 :: byte])]. sid \<noteq> 1 \<and> length body < 2 ^ 32 - 1"
    by simp
  have w: "\<forall>p \<in> set ps. wf_pair p" by (simp add: ps_def str_def)
  have l: "length (custom_payload (str ''name'') P) < 2 ^ 32 - 1"
    by (simp add: P_def ps_def enc_simps enc_subsections_def str_def)
  show ?thesis
    using first_pair_wins[OF valid_wasm_header s b a w P_def l, of "[]" Map.empty] valid_wasm_header w s
    by (simp add: P_def ps_def)
qed

text \<open>
  C9: on the name section whose function name subsection holds the pairs
  \<open>(0, main)\<close> and \<open>(2, helper)\<close>, with a mapping that is empty on entry,
  getFunctionNameIndex returns the mapping \<open>{0: main, 2: helper}\<close>. And on every
  module whose name section has, after subsections with other ids, a subsection with
  id 1 and a declared size \<open>s\<close> that lies within the section and differs from the
  length of the well-formed pair vector that follows, it fails at the end-of-subsection
  comparison (\<open>MalformedSection\<close>); the pairs decoded before are in the mapping.
\<close>

theorem name_index_example_and_boundary_check:
  assumes "valid_header h"
    and "\<forall>s \<in> set secs. wf_section s \<and> \<not> is_named (str ''name'') s"
    and "\<forall>(sid, body) \<in> set before. sid \<noteq> 1 \<and> length body < 2 ^ 32 - 1"
    and "\<forall>p \<in> set ps. wf_pair p"
    and "P = enc_subsections before @ [1] @ leb128 s @ namemap ps @ rest"
    and "s \<noteq> length (namemap ps)" and "s \<le> length (namemap ps @ rest)"
    and "length (custom_payload (str ''name'') P) < 2 ^ 32 - 1"
  shows "getFunctionNameIndex
           (wasm_header @ custom_section (str ''name'')
              (enc_subsection 1 (namemap [(0, str ''main''), (2, str ''helper'')]))) Map.empty
         = Inr [0 \<mapsto> str ''main'', 2 \<mapsto> str ''helper'']
       \<and> getFunctionNameIndex (h @ enc_sections secs @ custom_section (str ''name'') P @ tail) m
           = Inl (MalformedSection, insert_all m ps)"
proof -
  have ex: "getFunctionNameIndex
           (wasm_header @ custom_section (str ''name'')
              (enc_subsection 1 (namemap [(0, str ''main''), (2, str ''helper'')]))) Map.empty
         = Inr [0 \<mapsto> str ''main'', 2 \<mapsto> str ''helper'']"
    by (simp add: enc_simps run_simps)
  define pre where "pre = h @ enc_sections secs @ [0] @ leb128 (length (custom_payload (str ''name'') P))
                @ leb128 (length (str ''name'')) @ str ''name''"
  note g = getFunctionNameIndex_name_section[OF assms(1,2,8) pre_def]
  have ne: "P \<noteq> []" by (simp add: assms(5))
  have lP: "length P < 2 ^ 32 - 1"
    using assms(8) by (simp add: length_custom_payload)
  have s: "s < 2 ^ 32 - 1"
    using lP assms(7) by (simp add: assms(5))
  have cnt: "length ps < 2 ^ 32 - 1"
    using lP length_namemap_count[of ps] by (simp add: assms(5))
  have "name_subsections (pre @ P @ tail) (length pre + length P) (length pre) m
      = Inl (MalformedSection, insert_all m ps)"
    by (rule name_subsections_bad_size[OF assms(3,4) cnt s assms(6,7,5) refl])
  then have "getFunctionNameIndex (h @ enc_sections secs @ custom_section (str ''name'') P @ tail) m
      = Inl (MalformedSection, insert_all m ps)"
    using ne by (simp add: g)
  then show ?thesis using ex by simp
qed


theorem name_index_example_and_boundary_check_witness:
  "valid_header wasm_header
   \<and> wf_section (Plain 1 [0x01, 0x60, 0x00, 0x00]) \<and> \<not> is_named (str ''name'') (Plain 1 [0x01, 0x60, 0x00, 0x00])
   \<and> wf_pair (0, str ''main'') \<and> wf_pair (2, str ''helper'')
   \<and> length (namemap [(0, str ''main''), (2, str ''helper'')]) = 15
   \<and> getFunctionNameIndex
        (wasm_header @ enc_sections [Plain 1 [0x01, 0x60, 0x00, 0x00]]
           @ custom_section (str ''name'')
               (enc_subsections [(0, [0x01, 0x6d])]
                  @ [1] @ leb128 14 @ namemap [(0, str ''main''), (2, str ''helper'')])) Map.empty
      = Inl (MalformedSection, insert_all Map.empty [(0, str ''main''), (2, str ''helper'')])"
proof -
  define ps :: "(u32 \<times> bytes) list" where "ps = [(0, str ''main''), (2, str ''helper'')]"
  define P where "P = enc_subsections [(0, [0x01, 0x6d])] @ [1] @ leb128 14 @ namemap ps @ []"
  have s: "\<forall>s \<in> set [Plain 1 [0x01, 0x60, 0x00, 0x00]]. wf_section s \<and> \<not> is_named (str ''name'') s"
    by simp
  have b: "\<forall>(sid, body) \<in> set [(0 :: byte, [0x01, 0x6d :: byte])]. sid \<noteq> 1 \<and> length body < 2 ^ 32 - 1"
    by simp
  have w: "\<forall>p \<in> set ps. wf_pair p" by (simp add: ps_def str_def)
  have n: "length (namemap ps) = 15" by (simp add: ps_def enc_simps str_def)
  have l: "length (custom_payload (str ''name'') P) < 2 ^ 32 - 1"
    by (simp add: P_def ps_def enc_simps enc_subsections_def str_def)
  show ?thesis
    using name_index_example_and_boundary_check[OF valid_wasm_header s b w P_def _ _ l, of "[]" Map.empty]
      valid_wasm_header w n s
    by (simp add: P_def ps_def)
qed


text \<open>
  C10, as stated, fails: the two results differ. On a module with no custom section named
  \<open>name\<close> getCustomSection leaves the view as the caller passed it; on the same module
  followed by a custom section \<open>name\<close> with nothing after the name it returns the empty
  view at offset 21, the end of that section. With the default view on entry the two views
  differ in where they point, so \<^verbatim>\<open>data()\<close> tells them apart; with a view of three bytes on
  entry they differ in size as well.
\<close>

theorem absent_and_empty_section_differ:
  "getCustomSection (wasm_header @ enc_sections [Plain 1 [0x01, 0x60, 0x00, 0x00]]) (str ''name'') (0, 0)
     = Inr (0, 0)
   \<and> getCustomSection
       (wasm_header @ enc_sections [Plain 1 [0x01, 0x60, 0x00, 0x00]] @ custom_section (str ''name'') [])
       (str ''name'') (0, 0) = Inr (21, 21)
   \<and> getCustomSection (wasm_header @ enc_sections [Plain 1 [0x01, 0x60, 0x00, 0x00]]) (str ''name'') (0, 0)
     \<noteq> getCustomSection
       (wasm_header @ enc_sections [Plain 1 [0x01, 0x60, 0x00, 0x00]] @ custom_section (str ''name'') [])
       (str ''name'') (0, 0)
   \<and> getCustomSection (wasm_header @ enc_sections [Plain 1 [0x01, 0x60, 0x00, 0x00]]) (str ''name'') (0, 3)
     = Inr (0, 3)
   \<and> view_bytes (wasm_header @ enc_sections [Plain 1 [0x01, 0x60, 0x00, 0x00]]) (0, 3) = [0x00, 0x61, 0x73]
   \<and> getCustomSection
       (wasm_header @ enc_sections [Plain 1 [0x01, 0x60, 0x00, 0x00]] @ custom_section (str ''name'') [])
       (str ''name'') (0, 3) = Inr (21, 21)
   \<and> view_bytes
       (wasm_header @ enc_sections [Plain 1 [0x01, 0x60, 0x00, 0x00]] @ custom_section (str ''name'') [])
       (21, 21) = []"
  by (simp add: enc_simps run_simps view_bytes_def)

text \<open>
  C10, amended: on a well-formed module with no custom section of the requested name
  getCustomSection returns \<^verbatim>\<open>true\<close> and leaves the view exactly as it was passed; on a
  well-formed module whose first custom section of that name has no bytes after the name
  it returns \<^verbatim>\<open>true\<close> with the empty view at the end of that section, an offset \<open>p\<close> past
  the header. The two results are equal only if the caller passed that very view. When the
  caller passes an empty view, both results are \<^verbatim>\<open>true\<close> with a view of no bytes, and they
  differ only in where the view points. For the name \<open>name\<close>, getFunctionNameIndex returns
  the same result on both modules: \<^verbatim>\<open>true\<close> with the mapping unchanged.
\<close>

theorem absent_versus_empty_section:
  assumes "valid_header h"
    and "\<forall>s \<in> set secs1. wf_section s \<and> \<not> is_named name s"
    and "\<forall>s \<in> set secs2. wf_section s \<and> \<not> is_named name s"
    and "wf_section (Custom name [])"
    and "absent = h @ enc_sections secs1"
    and "present = h @ enc_sections secs2 @ custom_section name [] @ tail"
    and "p = length (h @ enc_sections secs2 @ custom_section name [])"
  shows "getCustomSection absent name ret = Inr ret
       \<and> getCustomSection present name ret = Inr (p, p)
       \<and> (getCustomSection absent name ret = getCustomSection present name ret \<longleftrightarrow> ret = (p, p))
       \<and> 8 < p
       \<and> view_bytes present (p, p) = []
       \<and> (fst ret = snd ret \<longrightarrow> view_bytes absent ret = view_bytes present (p, p))
       \<and> (name = str ''name'' \<longrightarrow>
            getFunctionNameIndex absent m = Inr m
            \<and> getFunctionNameIndex present m = getFunctionNameIndex absent m)"
proof -
  have len: "length (custom_payload name []) < 2 ^ 32 - 1" using assms(4) by simp
  have a: "getCustomSection absent name r = Inr r" for r
    unfolding assms(5) by (rule getCustomSection_absent[OF assms(1,2)])
  have b: "getCustomSection present name r = Inr (p, p)" for r
    unfolding assms(6)
    using getCustomSection_present[OF assms(1,3) len assms(7), of tail r] by simp
  have "getFunctionNameIndex absent m = Inr m" if "name = str ''name''"
    using a[of "(0, 0)"] that by (simp add: getFunctionNameIndex_def)
  moreover have "getFunctionNameIndex present m = Inr m" if "name = str ''name''"
    using b[of "(0, 0)"] that by (simp add: getFunctionNameIndex_def)
  moreover have "8 < p"
    using assms(1) by (simp add: assms(7) valid_header_def custom_section_def enc_section_def)
  ultimately show ?thesis
    using a[of ret] b[of ret] by (auto simp add: view_bytes_def)
qed

theorem absent_versus_empty_section_witness:
  "valid_header wasm_header
   \<and> wf_section (Plain 1 [0x01, 0x60, 0x00, 0x00]) \<and> \<not> is_named (str ''name'') (Plain 1 [0x01, 0x60, 0x00, 0x00])
   \<and> wf_section (Custom (str ''name'') [])
   \<and> length (wasm_header @ enc_sections [Plain 1 [0x01, 0x60, 0x00, 0x00]] @ custom_section (str ''name'') []) = 21
   \<and> getCustomSection (wasm_header @ enc_sections [Plain 1 [0x01, 0x60, 0x00, 0x00]]) (str ''name'') (0, 0)
       = Inr (0, 0)
   \<and> getCustomSection
        (wasm_header @ enc_sections [Plain 1 [0x01, 0x60, 0x00, 0x00]] @ custom_section (str ''name'') [] @ [0x0a, 0x00])
        (str ''name'') (0, 0) = Inr (21, 21)
   \<and> view_bytes (wasm_header @ enc_sections [Plain 1 [0x01, 0x60, 0x00, 0x00]]) (0, 0)
       = view_bytes
           (wasm_header @ enc_sections [Plain 1 [0x01, 0x60, 0x00, 0x00]] @ custom_section (str ''name'') [] @ [0x0a, 0x00])
           (21, 21)
   \<and> getFunctionNameIndex (wasm_header @ enc_sections [Plain 1 [0x01, 0x60, 0x00, 0x00]]) Map.empty
       = Inr Map.empty
   \<and> getFunctionNameIndex
        (wasm_header @ enc_sections [Plain 1 [0x01, 0x60, 0x00, 0x00]] @ custom_section (str ''name'') [] @ [0x0a, 0x00])
        Map.empty = Inr Map.empty"
proof -
  have s: "\<forall>s \<in> set [Plain 1 [0x01, 0x60, 0x00, 0x00]]. wf_section s \<and> \<not> is_named (str ''name'') s"
    by simp
  have w: "wf_section (Custom (str ''name'') [])"
    by (simp add: custom_payload_def str_def leb128.simps)
  have p: "21 = length (wasm_header @ enc_sections [Plain 1 [0x01, 0x60, 0x00, 0x00]] @ custom_section (str ''name'') [])"
    by (simp add: enc_simps str_def)
  show ?thesis
    using absent_versus_empty_section[OF valid_wasm_header s s w refl refl p,
        of "(0, 0)" "[0x0a, 0x00]" Map.empty] valid_wasm_header s w p
    by auto
qed


section \<open>Claims about failures\<close>

text \<open>
  C2, as stated, fails for both operations. getFunctionNameIndex inserts each pair as it
  is decoded, so a failure after the first pair leaves that pair in the mapping;
  getStrippedSource appends to the output as it walks, so a failure after a
  \<open>precompiled_\<close> section leaves the bytes before that section in the buffer.
\<close>

theorem partial_output_counterexample:
  "getFunctionNameIndex bad_names Map.empty = Inl (MalformedSection, [0 \<mapsto> str ''a''])
   \<and> [0 \<mapsto> str ''a''] \<noteq> (Map.empty :: name_index)
   \<and> getStrippedSource bad_strip [] = Inl (TruncatedInput, wasm_header)
   \<and> wasm_header \<noteq> []"
  using bad_names_run bad_strip_run by (simp add: wasm_header_def)

text \<open>
  C2, amended: a failing run leaves the output it was given with exactly what it gathered
  before the failure. The statement is for the runs in which every call of
  \<^verbatim>\<open>parseVarint\<close> reads at most five bytes, so that no shift count reaches 32.

  When getFunctionNameIndex returns \<^verbatim>\<open>false\<close>, the mapping is the one held on entry with
  the pairs that the run inserted before it failed, in their order, an index that is
  already present keeping its name. So every entry held on entry is still there, and the
  mapping is unchanged when the run fails before its first insert, which includes every
  failure of the header check and of the walk over the sections.

  When getStrippedSource returns \<^verbatim>\<open>false\<close>, the output buffer is the one held on entry with
  the appends of the sections that the run walked before it failed. So it starts with the
  bytes held on entry; a buffer that was empty on entry is still empty when the run fails
  before it has walked a section with \<^verbatim>\<open>precompiled_\<close> in its name; and any buffer is
  unchanged when the run fails before it has walked such a section or a non-custom
  section, which includes every failure of the header check.
\<close>

theorem failing_run_output:
  "(list_all (event_defined b) (getFunctionNameIndex_log b) \<and> getFunctionNameIndex b m0 = Inl (e, m) \<longrightarrow>
      m = insert_all m0 (inserts (getFunctionNameIndex_log b))
      \<and> m = map_of (inserts (getFunctionNameIndex_log b)) ++ m0
      \<and> m0 \<subseteq>\<^sub>m m
      \<and> (inserts (getFunctionNameIndex_log b) = [] \<longrightarrow> m = m0)
      \<and> (e = InvalidHeader \<or> (\<exists>x. getCustomSection b (str ''name'') (0, 0) = Inl x) \<longrightarrow> m = m0))
   \<and> (list_all (event_defined b') (getStrippedSource_log b') \<and> getStrippedSource b' r0 = Inl (e', r) \<longrightarrow>
      r = foldl (append_event b') r0 (getStrippedSource_log b')
      \<and> prefix r0 r
      \<and> (r0 = [] \<and> (\<forall>p. Precompiled p \<notin> set (getStrippedSource_log b')) \<longrightarrow> r = r0)
      \<and> ((\<forall>p. Precompiled p \<notin> set (getStrippedSource_log b'))
           \<and> (\<forall>s t. Noncustom s t \<notin> set (getStrippedSource_log b')) \<longrightarrow> r = r0)
      \<and> (e' = InvalidHeader \<longrightarrow> r = r0))"
proof (intro conjI impI)
  assume "list_all (event_defined b) (getFunctionNameIndex_log b) \<and> getFunctionNameIndex b m0 = Inl (e, m)"
  then have f: "getFunctionNameIndex b m0 = Inl (e, m)" by simp
  show 1: "m = insert_all m0 (inserts (getFunctionNameIndex_log b))"
    using getFunctionNameIndex_output[of b m0] f by simp
  then show "m = map_of (inserts (getFunctionNameIndex_log b)) ++ m0"
    by (simp add: insert_all_eq)
  show "m0 \<subseteq>\<^sub>m m"
    using f name_subsections_le[of b _ _ m0 e m]
    by (auto simp: getFunctionNameIndex_def split: sum.splits prod.splits if_splits)
  show "m = m0" if "inserts (getFunctionNameIndex_log b) = []"
    using 1 that by simp
  assume "e = InvalidHeader \<or> (\<exists>x. getCustomSection b (str ''name'') (0, 0) = Inl x)"
  then show "m = m0"
    using f name_subsections_le[of b _ _ m0 e m]
    by (auto simp: getFunctionNameIndex_def split: sum.splits prod.splits if_splits)
next
  assume "list_all (event_defined b') (getStrippedSource_log b') \<and> getStrippedSource b' r0 = Inl (e', r)"
  then have f: "getStrippedSource b' r0 = Inl (e', r)" by simp
  show 1: "r = foldl (append_event b') r0 (getStrippedSource_log b')"
    using f by (rule getStrippedSource_output)
  show "prefix r0 r"
    using f strip_sections_prefix[of b' _ _ r0 e' r]
    by (auto simp: getStrippedSource_def split: sum.splits prod.splits if_splits)
  show "r = r0" if "r0 = [] \<and> (\<forall>p. Precompiled p \<notin> set (getStrippedSource_log b'))"
    using 1 that foldl_append_event_empty[of "getStrippedSource_log b'" b'] by simp
  show "r = r0" if "(\<forall>p. Precompiled p \<notin> set (getStrippedSource_log b')) \<and> (\<forall>s t. Noncustom s t \<notin> set (getStrippedSource_log b'))"
    using 1 that foldl_append_event_same[of "getStrippedSource_log b'" b' r0] by simp
  assume "e' = InvalidHeader"
  then show "r = r0"
    using f strip_sections_prefix[of b' _ _ r0 e' r]
    by (auto simp: getStrippedSource_def split: sum.splits prod.splits if_splits)
qed

theorem failing_run_output_witness:
  "list_all (event_defined bad_names) (getFunctionNameIndex_log bad_names)
   \<and> inserts (getFunctionNameIndex_log bad_names) = [(0, str ''a'')]
   \<and> getFunctionNameIndex bad_names [7 \<mapsto> str ''x'']
       = Inl (MalformedSection, insert_all [7 \<mapsto> str ''x''] [(0, str ''a'')])
   \<and> insert_all [7 \<mapsto> str ''x''] [(0, str ''a'')] = ([7 \<mapsto> str ''x'', 0 \<mapsto> str ''a''] :: name_index)
   \<and> list_all (event_defined early_names) (getFunctionNameIndex_log early_names)
   \<and> inserts (getFunctionNameIndex_log early_names) = []
   \<and> getFunctionNameIndex early_names [7 \<mapsto> str ''x''] = Inl (TruncatedInput, [7 \<mapsto> str ''x''])
   \<and> list_all (event_defined bad_strip) (getStrippedSource_log bad_strip)
   \<and> getStrippedSource_log bad_strip = [Varint 9 25, Varint 10 25, Precompiled 8, Varint 25 25]
   \<and> getStrippedSource bad_strip [] = Inl (TruncatedInput, take 8 bad_strip)
   \<and> take 8 bad_strip = wasm_header
   \<and> list_all (event_defined early_strip) (getStrippedSource_log early_strip)
   \<and> getStrippedSource_log early_strip = [Varint 9 11]
   \<and> getStrippedSource early_strip [] = Inl (TruncatedInput, [])
   \<and> getFunctionNameIndex_log [0x00, 0x00, 0x00, 0x00, 0x00, 0x00, 0x00, 0x00] = []
   \<and> getFunctionNameIndex [0x00, 0x00, 0x00, 0x00, 0x00, 0x00, 0x00, 0x00] [7 \<mapsto> str ''x'']
       = Inl (InvalidHeader, [7 \<mapsto> str ''x''])
   \<and> getStrippedSource_log [0x00, 0x00, 0x00, 0x00, 0x00, 0x00, 0x00, 0x00] = []
   \<and> getStrippedSource [0x00, 0x00, 0x00, 0x00, 0x00, 0x00, 0x00, 0x00] [0x01] = Inl (InvalidHeader, [0x01])"
proof -
  have 1: "getFunctionNameIndex bad_names [7 \<mapsto> str ''x'']
      = Inl (MalformedSection, [7 \<mapsto> str ''x'', 0 \<mapsto> str ''a''])"
    by (simp add: bad_names_def enc_simps run_simps)
  have 2: "getFunctionNameIndex early_names [7 \<mapsto> str ''x''] = Inl (TruncatedInput, [7 \<mapsto> str ''x''])"
    by (simp add: early_names_def enc_simps run_simps)
  have 3: "getStrippedSource early_strip [] = Inl (TruncatedInput, [])"
    by (simp add: early_strip_def enc_simps run_simps)
  have 4: "list_all (event_defined bad_names) (getFunctionNameIndex_log bad_names)"
    by (simp add: bad_names_def enc_simps run_simps log_simps)
  have 5: "list_all (event_defined early_names) (getFunctionNameIndex_log early_names)"
    by (simp add: early_names_def enc_simps run_simps log_simps)
  have 6: "list_all (event_defined bad_strip) (getStrippedSource_log bad_strip)"
    by (simp add: bad_strip_def enc_simps run_simps log_simps)
  have 7: "list_all (event_defined early_strip) (getStrippedSource_log early_strip)"
    by (simp add: early_strip_def enc_simps run_simps log_simps)
  have 8: "inserts (getFunctionNameIndex_log bad_names) = [(0, str ''a'')]"
    by (simp add: bad_names_def enc_simps run_simps log_simps)
  have 9: "inserts (getFunctionNameIndex_log early_names) = []"
    by (simp add: early_names_def enc_simps run_simps log_simps)
  have 10: "getStrippedSource_log bad_strip = [Varint 9 25, Varint 10 25, Precompiled 8, Varint 25 25]"
    by (simp add: bad_strip_def enc_simps run_simps log_simps)
  have 11: "getStrippedSource_log early_strip = [Varint 9 11]"
    by (simp add: early_strip_def enc_simps run_simps log_simps)
  have 12: "take 8 bad_strip = wasm_header"
    by (simp add: bad_strip_def enc_simps)
  have 13: "insert_all [7 \<mapsto> str ''x''] [(0, str ''a'')] = ([7 \<mapsto> str ''x'', 0 \<mapsto> str ''a''] :: name_index)"
    by (simp add: map_insert_def)
  have 14: "getFunctionNameIndex_log [0x00, 0x00, 0x00, 0x00, 0x00, 0x00, 0x00, 0x00] = []"
    by (simp add: run_simps log_simps)
  have 15: "getFunctionNameIndex [0x00, 0x00, 0x00, 0x00, 0x00, 0x00, 0x00, 0x00] [7 \<mapsto> str ''x'']
      = Inl (InvalidHeader, [7 \<mapsto> str ''x''])"
    by (simp add: run_simps)
  have 16: "getStrippedSource_log [0x00, 0x00, 0x00, 0x00, 0x00, 0x00, 0x00, 0x00] = []"
    by (simp add: run_simps log_simps)
  have 17: "getStrippedSource [0x00, 0x00, 0x00, 0x00, 0x00, 0x00, 0x00, 0x00] [0x01] = Inl (InvalidHeader, [0x01])"
    by (simp add: run_simps)
  show ?thesis
    using failing_run_output[of bad_names "[7 \<mapsto> str ''x'']" MalformedSection
        "[7 \<mapsto> str ''x'', 0 \<mapsto> str ''a'']" bad_strip "[]" TruncatedInput wasm_header]
      failing_run_output[of early_names "[7 \<mapsto> str ''x'']" TruncatedInput
        "[7 \<mapsto> str ''x'']" early_strip "[]" TruncatedInput "[]"]
      failing_run_output[of "[0x00, 0x00, 0x00, 0x00, 0x00, 0x00, 0x00, 0x00]" "[7 \<mapsto> str ''x'']"
        InvalidHeader "[7 \<mapsto> str ''x'']" "[0x00, 0x00, 0x00, 0x00, 0x00, 0x00, 0x00, 0x00]" "[0x01]"
        InvalidHeader "[0x01]"]
      1 2 3 4 5 6 7 8 9 10 11 12 13 14 15 16 17 bad_strip_run
    by simp
qed


section \<open>Claims about getAbiVersion\<close>

text \<open>
  C6, as stated, fails: a function export named \<open>proxy_abi_version_0_2_1\<close> does not
  decide the result regardless of the other exports. The loop returns at the first
  function export that carries one of the three names, here \<open>proxy_abi_version_0_1_0\<close>.
\<close>

theorem first_abi_export_counterexample:
  "getAbiVersion (wasm_header @ export_section [(abi_0_1_0, 0x00, 0), (abi_0_2_1, 0x00, 1)])
     = Inr ProxyWasm_0_1_0"
  by (simp add: enc_simps run_simps)

text \<open>
  C6, amended: on a module made of a valid header, well-formed sections other than the
  export section, then an export section with the exports \<open>es\<close> and anything after it,
  getAbiVersion returns \<^verbatim>\<open>true\<close> with the version of the first function export (kind 0)
  of \<open>es\<close> that carries one of the three names: \<open>proxy_abi_version_0_2_1\<close> when such
  an export is not preceded by another export that matches, and \<open>Unknown\<close> when no
  export matches. On a module without an export section it returns \<^verbatim>\<open>true\<close> with
  \<open>Unknown\<close>. The exports passed over before the match are those the loop decodes
  without failure (\<open>skip_ok\<close>): the loop adds the index to the variable that still
  holds the length of the name, and what it does when that sum is \<open>0xffffffff\<close> is
  left out of the statement.
\<close>

theorem abi_version_of_first_match:
  assumes "valid_header h"
    and "\<forall>s \<in> set secs. wf_section s \<and> sec_type s \<noteq> 7"
    and "length (export_payload es) < 2 ^ 32 - 1"
    and "\<forall>e \<in> set (takeWhile (\<lambda>e. abi_of e = None) es). skip_ok e"
  shows "getAbiVersion (h @ enc_sections secs @ export_section es @ tail) = Inr (abi_scan es)
       \<and> (\<forall>xs idx ys. es = xs @ (abi_0_2_1, 0x00, idx) # ys \<and> (\<forall>e \<in> set xs. abi_of e = None) \<longrightarrow>
            abi_scan es = ProxyWasm_0_2_1)
       \<and> ((\<forall>e \<in> set es. abi_of e = None) \<longrightarrow> abi_scan es = Unknown)
       \<and> getAbiVersion (h @ enc_sections secs) = Inr Unknown"
proof -
  have h8: "length h = 8" using assms(1) by (simp add: valid_header_def)
  define buf where "buf = h @ enc_sections secs @ export_section es @ tail"
  have "abi_sections (h @ enc_sections secs @ (export_section es @ tail)) (length buf) (length h) =
      abi_sections (h @ enc_sections secs @ (export_section es @ tail)) (length buf)
        (length h + length (enc_sections secs))"
    using assms(2) by (intro abi_sections_skip) (simp_all add: buf_def)
  moreover have "abi_sections ((h @ enc_sections secs) @ export_section es @ tail) (length buf)
      (length (h @ enc_sections secs)) = Inr (abi_scan es)"
    by (rule abi_sections_export[OF assms(3,4)]) (simp add: buf_def)
  ultimately have "abi_sections buf (length buf) 8 = Inr (abi_scan es)"
    by (simp add: h8 buf_def)
  moreover have "checkWasmHeader buf"
    unfolding buf_def by (rule checkWasmHeader_valid[OF assms(1)])
  ultimately have 1: "getAbiVersion (h @ enc_sections secs @ export_section es @ tail) = Inr (abi_scan es)"
    by (simp add: getAbiVersion_def buf_def)
  have "abi_sections (h @ enc_sections secs @ []) (length (h @ enc_sections secs)) (length h) =
      abi_sections (h @ enc_sections secs @ []) (length (h @ enc_sections secs))
        (length h + length (enc_sections secs))"
    using assms(2) by (intro abi_sections_skip) simp_all
  then have "abi_sections (h @ enc_sections secs) (length (h @ enc_sections secs)) 8 = Inr Unknown"
    by (simp add: h8 abi_sections_ge)
  then have 2: "getAbiVersion (h @ enc_sections secs) = Inr Unknown"
    using checkWasmHeader_valid[OF assms(1)] by (simp add: getAbiVersion_def)
  have 3: "abi_scan es = ProxyWasm_0_2_1"
    if "es = xs @ (abi_0_2_1, 0x00, idx) # ys" "\<forall>e \<in> set xs. abi_of e = None" for xs idx ys
    using that abi_scan_append_none[of xs "(abi_0_2_1, 0x00, idx) # ys"] abi_of_0_2_1[of idx]
    by (simp del: abi_of.simps)
  have 4: "abi_scan es = Unknown" if "\<forall>e \<in> set es. abi_of e = None"
    using that by (rule abi_scan_none)
  show ?thesis using 1 2 3 4 by blast
qed

theorem abi_version_of_first_match_witness:
  "valid_header wasm_header
   \<and> wf_section (Plain 1 [0x01, 0x60, 0x00, 0x00]) \<and> sec_type (Plain 1 [0x01, 0x60, 0x00, 0x00]) \<noteq> 7
   \<and> abi_of (str ''memory'', 0x02, 0) = None \<and> skip_ok (str ''memory'', 0x02, 0)
   \<and> getAbiVersion
        (wasm_header @ enc_sections [Plain 1 [0x01, 0x60, 0x00, 0x00]]
           @ export_section [(str ''memory'', 0x02, 0), (abi_0_2_1, 0x00, 5)]
           @ enc_section 10 [0x00])
      = Inr ProxyWasm_0_2_1
   \<and> getAbiVersion (wasm_header @ enc_sections [Plain 1 [0x01, 0x60, 0x00, 0x00]]) = Inr Unknown"
proof -
  define es :: "export list" where "es = [(str ''memory'', 0x02, 0), (abi_0_2_1, 0x00, 5)]"
  have s: "\<forall>s \<in> set [Plain 1 [0x01, 0x60, 0x00, 0x00]]. wf_section s \<and> sec_type s \<noteq> 7"
    by simp
  have n: "abi_of (str ''memory'', 0x02, 0) = None" by simp
  have k: "skip_ok (str ''memory'', 0x02, 0)" by (simp add: str_def)
  have l: "length (export_payload es) < 2 ^ 32 - 1"
    by (simp add: es_def export_payload_def abi_0_2_1_def str_def leb128.simps)
  have t: "\<forall>e \<in> set (takeWhile (\<lambda>e. abi_of e = None) es). skip_ok e"
    using n k abi_of_0_2_1[of 5] by (simp add: es_def del: abi_of.simps skip_ok.simps)
  have a: "abi_scan es = ProxyWasm_0_2_1"
    using n abi_of_0_2_1[of 5] by (simp add: es_def del: abi_of.simps)
  show ?thesis
    using abi_version_of_first_match[OF valid_wasm_header s l t, of "enc_section 10 [0x00]"]
      valid_wasm_header s n k a
    by (simp add: es_def del: abi_of.simps skip_ok.simps)
qed

text \<open>
  The case the statement above leaves out: an export with a one-byte name and the index
  \<open>0xfffffffe\<close> makes the operation fail, although the module is well formed.
\<close>

lemma export_index_added_to_name_length:
  "getAbiVersion (wasm_header @ export_section [(str ''a'', 0x00, 0xfffffffe), (abi_0_2_1, 0x00, 5)])
     = Inl (VarintOverflow, Unknown)"
  by (simp add: enc_simps run_simps)


end
